theory Spec2Isabelle
  imports Main
begin

section \<open>JavaScript values\<close>

text \<open>
  The programs embedded here are JavaScript and TypeScript. A value is one of the
  primitive kinds the sources use, or an object, which is known by its identity only.
  The operators \<^verbatim>\<open>||\<close>, \<^verbatim>\<open>&&\<close> and \<^verbatim>\<open>?:\<close> test truthiness.
\<close>

datatype jsval =
    JUndefined
  | JNull
  | JBool bool
  | JNum int
  | JStr string
  | JObj nat

fun truthy :: "jsval \<Rightarrow> bool" where
  "truthy JUndefined = False"
| "truthy JNull = False"
| "truthy (JBool b) = b"
| "truthy (JNum n) = (n \<noteq> 0)"
| "truthy (JStr s) = (s \<noteq> [])"
| "truthy (JObj r) = True"


section \<open>The compiled stylesheet function\<close>

text \<open>
  \<^verbatim>\<open>function stylesheet(token, useActualHostSelector, useNativeDirPseudoclass)\<close>.
  The token is a string or is absent (\<open>None\<close> stands for \<^verbatim>\<open>undefined\<close>); the
  test \<^verbatim>\<open>token ? ... : ""\<close> is the truthiness of a string, which fails for the
  empty string as it does for \<^verbatim>\<open>undefined\<close>. The two locals are definitions of
  their own, so that the host selector, which this stylesheet computes and does not
  use, can be spoken about.
\<close>

definition shadowSelector :: "string option \<Rightarrow> string" where
  "shadowSelector token =
     (case token of
        None \<Rightarrow> []
      | Some t \<Rightarrow> if t \<noteq> [] then ''['' @ t @ '']'' else [])"

definition hostSelector :: "string option \<Rightarrow> string" where
  "hostSelector token =
     (case token of
        None \<Rightarrow> []
      | Some t \<Rightarrow> if t \<noteq> [] then ''['' @ t @ ''-host]'' else [])"

definition stylesheet :: "string option \<Rightarrow> bool \<Rightarrow> bool \<Rightarrow> string" where
  "stylesheet token useActualHostSelector useNativeDirPseudoclass =
     shadowSelector token @ ''::after {}h1'' @ shadowSelector token @ ''::before {}''"


section \<open>The patched custom element registry\<close>

text \<open>
  \<^verbatim>\<open>packages/@lwc/engine-dom/src/patches/global-registry.ts\<close>. The module keeps its
  state in module-level maps; the model passes that state explicitly as a record
  with one field per map. Elements, callbacks and promises are known by identity.
  A \<^verbatim>\<open>Definition\<close> is a mutable object shared by several maps (its
  \<^verbatim>\<open>PivotCtor\<close> field is assigned after the maps hold it), so the definitions live in
  a store and the maps hold references into it. Embedded are the patched
  \<^verbatim>\<open>define\<close>, \<^verbatim>\<open>get\<close> and \<^verbatim>\<open>whenDefined\<close>, the registration function the patch returns,
  and what they call; the callbacks of the pivoting class and the patched
  \<^verbatim>\<open>HTMLElement\<close> constructor, which the browser and user code call on elements, are
  not.
\<close>

type_synonym elem = nat
type_synonym callback = nat
type_synonym def_ref = nat
type_synonym promise_ref = nat

text \<open>
  A constructor as \<^verbatim>\<open>define\<close> receives it: its identity and what the module reads
  from it. \<open>has_prototype\<close> is the test of \<^verbatim>\<open>getDefinitionForConstructor\<close>: the
  value is truthy and its \<^verbatim>\<open>prototype\<close> is an object.
\<close>

record ctor =
  ctor_id :: nat
  has_prototype :: bool
  proto_connectedCallback :: "callback option"
  proto_disconnectedCallback :: "callback option"
  proto_adoptedCallback :: "callback option"
  proto_attributeChangedCallback :: "callback option"
  static_observedAttributes :: "string list option"

text \<open>
  The class \<^verbatim>\<open>createPivotingClass(tagName, registeredDefinition)\<close> builds: it closes
  over its two arguments and copies the observed attributes into a static field.
\<close>

record pivot =
  pivot_tagName :: string
  pivot_registeredDefinition :: def_ref
  pivot_observedAttributes :: "string list"

record Definition =
  UserCtor :: ctor
  PivotCtor :: "pivot option"
  connectedCallback :: "callback option"
  disconnectedCallback :: "callback option"
  adoptedCallback :: "callback option"
  attributeChangedCallback :: "callback option"
  observedAttributes :: "string list"

text \<open>
  The messages of the three \<^verbatim>\<open>DOMException\<close>s \<^verbatim>\<open>define\<close> raises itself, and of the
  one the browser's own \<^verbatim>\<open>define\<close> raises for a name it already holds.
\<close>

datatype dom_message =
    ExtendsNotSupported
  | NameAlreadyUsed string
  | ConstructorAlreadyUsed
  | NativeNameAlreadyUsed string

datatype exn =
    DOMException dom_message
  | SyntaxError
  | TypeError string
  | Thrown nat

datatype promise_state = Pending | Resolved ctor

text \<open>What the browser's registry holds for a name: a pivoting class, or a class
  defined before the patch was installed.\<close>

datatype native_ctor = NativePivot pivot | NativeOther nat

record registry =
  definitionForElement :: "elem \<rightharpoonup> def_ref"
  pendingRegistryForElement :: "elem \<rightharpoonup> def_ref"
  definitionForConstructor :: "ctor \<rightharpoonup> def_ref"
  pivotCtorByTag :: "string \<rightharpoonup> pivot"
  definitionsByTag :: "string \<rightharpoonup> def_ref"
  definitionsByClass :: "ctor \<rightharpoonup> def_ref"
  definedPromises :: "string \<rightharpoonup> promise_ref"
  definedResolvers :: "string \<rightharpoonup> promise_ref"
  awaitingUpgrade :: "string \<rightharpoonup> elem list"
  upgradingInstance :: "elem option"
  definitions :: "Definition list"
  promises :: "promise_state list"
  nativeRegistry :: "string \<rightharpoonup> native_ctor"

definition init_registry :: registry where
  "init_registry =
     \<lparr> definitionForElement = Map.empty, pendingRegistryForElement = Map.empty,
       definitionForConstructor = Map.empty, pivotCtorByTag = Map.empty,
       definitionsByTag = Map.empty, definitionsByClass = Map.empty,
       definedPromises = Map.empty, definedResolvers = Map.empty,
       awaitingUpgrade = Map.empty, upgradingInstance = None,
       definitions = [], promises = [], nativeRegistry = Map.empty \<rparr>"

text \<open>
  What the module calls and does not define: the browser's registry and the code of
  the user's classes. They are parameters of the model.
  \<^item> \<open>valid_name\<close>: the names the browser's \<^verbatim>\<open>define\<close> and \<^verbatim>\<open>whenDefined\<close> accept;
  \<^item> \<open>get_checks_name\<close>: whether the browser's \<^verbatim>\<open>get\<close> raises a \<^verbatim>\<open>SyntaxError\<close> for
    a name that is not valid, as the comment in \<^verbatim>\<open>define\<close> expects;
  \<^item> \<open>new_UserCtor\<close>: the outcome of \<^verbatim>\<open>new UserCtor()\<close>, given the constructor and
    the current \<^verbatim>\<open>upgradingInstance\<close>: what it throws, if anything, and the
    \<^verbatim>\<open>upgradingInstance\<close> it leaves;
  \<^item> \<open>nativeHasAttribute\<close> and \<open>call_attributeChangedCallback\<close>: the attributes of
    an element and the outcome of the user's callback.
  \<^item> \<open>toLowerCase\<close>: the built-in \<^verbatim>\<open>String.prototype.toLowerCase\<close>, which lower-cases
    the letters of every script.
  User code is taken not to call back into the registry while it runs.
\<close>

record env =
  valid_name :: "string \<Rightarrow> bool"
  get_checks_name :: bool
  new_UserCtor :: "ctor \<Rightarrow> elem option \<Rightarrow> exn option \<times> elem option"
  nativeHasAttribute :: "elem \<Rightarrow> string \<Rightarrow> bool"
  call_attributeChangedCallback :: "callback \<Rightarrow> elem \<Rightarrow> string \<Rightarrow> exn option"
  toLowerCase :: "string \<Rightarrow> string"

text \<open>What \<^verbatim>\<open>String.prototype.toLowerCase\<close> does to a string of ASCII characters; the
  examples use it on such names.\<close>

definition lower_char :: "char \<Rightarrow> char" where
  "lower_char c =
     (case map_of (zip ''ABCDEFGHIJKLMNOPQRSTUVWXYZ'' ''abcdefghijklmnopqrstuvwxyz'') c of
        Some l \<Rightarrow> l
      | None \<Rightarrow> c)"

definition ascii_toLowerCase :: "string \<Rightarrow> string" where
  "ascii_toLowerCase s = map lower_char s"

text \<open>\<^verbatim>\<open>new Set(xs)\<close>: the elements in the order of their first occurrence.\<close>

definition new_Set :: "'a list \<Rightarrow> 'a list" where
  "new_Set xs = rev (remdups (rev xs))"

definition createDefinitionRecord :: "ctor \<Rightarrow> Definition" where
  "createDefinitionRecord c =
     \<lparr> UserCtor = c, PivotCtor = None,
       connectedCallback = proto_connectedCallback c,
       disconnectedCallback = proto_disconnectedCallback c,
       adoptedCallback = proto_adoptedCallback c,
       attributeChangedCallback = proto_attributeChangedCallback c,
       observedAttributes =
         new_Set (case static_observedAttributes c of None \<Rightarrow> [] | Some xs \<Rightarrow> xs) \<rparr>"

definition lookup_def :: "registry \<Rightarrow> def_ref \<Rightarrow> Definition option" where
  "lookup_def s d = (if d < length (definitions s) then Some (definitions s ! d) else None)"

definition getDefinitionForConstructor :: "registry \<Rightarrow> ctor \<Rightarrow> exn + def_ref \<times> registry" where
  "getDefinitionForConstructor s c =
     (if \<not> has_prototype c then Inl (TypeError ''The referenced constructor is not a constructor.'')
      else case definitionForConstructor s c of
        Some d \<Rightarrow> Inr (d, s)
      | None \<Rightarrow>
          let d = length (definitions s) in
          Inr (d, s\<lparr> definitions := definitions s @ [createDefinitionRecord c],
                     definitionForConstructor := (definitionForConstructor s)(c \<mapsto> d) \<rparr>))"

definition createPivotingClass :: "registry \<Rightarrow> string \<Rightarrow> def_ref \<Rightarrow> pivot \<times> registry" where
  "createPivotingClass s tagName registeredDefinition =
     (let p = \<lparr> pivot_tagName = tagName,
                 pivot_registeredDefinition = registeredDefinition,
                 pivot_observedAttributes =
                   (case lookup_def s registeredDefinition of
                      None \<Rightarrow> []
                    | Some df \<Rightarrow> observedAttributes df) \<rparr>
      in (p, s\<lparr> pivotCtorByTag := (pivotCtorByTag s)(tagName \<mapsto> p) \<rparr>))"

definition getObservedAttributesOffset :: "Definition \<Rightarrow> Definition \<Rightarrow> string list" where
  "getObservedAttributesOffset registeredDefinition instancedDefinition =
     filter (\<lambda>x. x \<notin> set (observedAttributes instancedDefinition))
       (observedAttributes registeredDefinition)"

text \<open>The browser's \<^verbatim>\<open>customElements.get\<close> and \<^verbatim>\<open>customElements.define\<close>.\<close>

definition nativeGet :: "env \<Rightarrow> registry \<Rightarrow> string \<Rightarrow> exn + native_ctor option" where
  "nativeGet env s tagName =
     (if get_checks_name env \<and> \<not> valid_name env tagName then Inl SyntaxError
      else Inr (nativeRegistry s tagName))"

definition nativeDefine :: "env \<Rightarrow> registry \<Rightarrow> string \<Rightarrow> pivot \<Rightarrow> exn option \<times> registry" where
  "nativeDefine env s tagName p =
     (if \<not> valid_name env tagName then (Some SyntaxError, s)
      else if nativeRegistry s tagName \<noteq> None
        then (Some (DOMException (NativeNameAlreadyUsed tagName)), s)
      else (None, s\<lparr> nativeRegistry := (nativeRegistry s)(tagName \<mapsto> NativePivot p) \<rparr>))"

text \<open>
  \<^verbatim>\<open>internalUpgrade(instance, registeredDefinition, instancedDefinition)\<close>. The
  prototype swap and \<^verbatim>\<open>patchAttributes\<close> change the element only, which is not part of
  the module's state. A second \<^verbatim>\<open>new UserCtor()\<close> is tried when the first one throws
  the \<^verbatim>\<open>TypeError\<close> "Illegal constructor"; any exception that is left goes to the
  caller. The attribute callbacks run for the offset attributes the element has.
\<close>

fun call_callbacks :: "env \<Rightarrow> callback \<Rightarrow> elem \<Rightarrow> string list \<Rightarrow> exn option" where
  "call_callbacks env cb instance [] = None"
| "call_callbacks env cb instance (name # names) =
     (if nativeHasAttribute env instance name
      then (case call_attributeChangedCallback env cb instance name of
              Some e \<Rightarrow> Some e
            | None \<Rightarrow> call_callbacks env cb instance names)
      else call_callbacks env cb instance names)"

definition internalUpgrade :: "env \<Rightarrow> registry \<Rightarrow> elem \<Rightarrow> def_ref \<Rightarrow> def_ref \<Rightarrow> exn option \<times> registry" where
  "internalUpgrade env s instance registeredDefinition instancedDefinition =
     (case (lookup_def s registeredDefinition, lookup_def s instancedDefinition) of
        (Some reg, Some inst) \<Rightarrow>
          let s1 = s\<lparr> definitionForElement := (definitionForElement s)(instance \<mapsto> instancedDefinition),
                      upgradingInstance := Some instance \<rparr>;
              r1 = new_UserCtor env (UserCtor inst) (upgradingInstance s1);
              r2 = (if fst r1 = Some (TypeError ''Illegal constructor'')
                    then new_UserCtor env (UserCtor inst) (snd r1) else r1);
              s2 = s1\<lparr> upgradingInstance := snd r2 \<rparr>
          in (case fst r2 of
                Some e \<Rightarrow> (Some e, s2)
              | None \<Rightarrow>
                  (case attributeChangedCallback inst of
                     None \<Rightarrow> (None, s2)
                   | Some cb \<Rightarrow>
                       if observedAttributes inst = [] then (None, s2)
                       else (call_callbacks env cb instance
                               (getObservedAttributesOffset reg inst), s2)))
      | _ \<Rightarrow> (Some (TypeError ''Cannot read properties of undefined''), s))"

text \<open>
  The loop of \<^verbatim>\<open>define\<close> over the elements that wait for the tag: an element with
  a pending registered definition leaves the pending map and is upgraded; the first
  exception ends the loop.
\<close>

fun upgrade_awaiting :: "env \<Rightarrow> def_ref \<Rightarrow> elem list \<Rightarrow> registry \<Rightarrow> exn option \<times> registry" where
  "upgrade_awaiting env d [] s = (None, s)"
| "upgrade_awaiting env d (element # rest) s =
     (case pendingRegistryForElement s element of
        None \<Rightarrow> upgrade_awaiting env d rest s
      | Some registeredDefinition \<Rightarrow>
          (case internalUpgrade env
                  (s\<lparr> pendingRegistryForElement := (pendingRegistryForElement s)(element := None) \<rparr>)
                  element registeredDefinition d of
             (Some e, s') \<Rightarrow> (Some e, s')
           | (None, s') \<Rightarrow> upgrade_awaiting env d rest s'))"

definition flush_awaiting :: "env \<Rightarrow> registry \<Rightarrow> string \<Rightarrow> def_ref \<Rightarrow> exn option \<times> registry" where
  "flush_awaiting env s tagName d =
     (case awaitingUpgrade s tagName of
        None \<Rightarrow> (None, s)
      | Some awaiting \<Rightarrow>
          upgrade_awaiting env d awaiting
            (s\<lparr> awaitingUpgrade := (awaitingUpgrade s)(tagName := None) \<rparr>))"

text \<open>The resolver stored by \<^verbatim>\<open>whenDefined\<close> settles its promise; settling a promise
  a second time changes nothing.\<close>

definition resolve_promise :: "registry \<Rightarrow> promise_ref \<Rightarrow> ctor \<Rightarrow> registry" where
  "resolve_promise s p c =
     (if p < length (promises s) \<and> promises s ! p = Pending
      then s\<lparr> promises := (promises s)[p := Resolved c] \<rparr> else s)"

definition set_PivotCtor :: "registry \<Rightarrow> def_ref \<Rightarrow> pivot \<Rightarrow> registry" where
  "set_PivotCtor s d p =
     (case lookup_def s d of
        None \<Rightarrow> s
      | Some df \<Rightarrow> s\<lparr> definitions := (definitions s)[d := df\<lparr> PivotCtor := Some p \<rparr>] \<rparr>)"

record ElementDefinitionOptions =
  extends :: "string option"

text \<open>The guard \<^verbatim>\<open>options && options.extends\<close>: the options are given and their
  \<^verbatim>\<open>extends\<close> is a string that is not empty.\<close>

definition extends_given :: "ElementDefinitionOptions option \<Rightarrow> bool" where
  "extends_given options =
     (case options of
        None \<Rightarrow> False
      | Some opts \<Rightarrow> (case extends opts of None \<Rightarrow> False | Some e \<Rightarrow> e \<noteq> []))"

text \<open>
  The patched \<^verbatim>\<open>CustomElementRegistry.prototype.define\<close> (\<open>define\<close> is a
  keyword of Isabelle, hence the suffix). The result is the exception
  it throws, if any, and the state it leaves: an exception does not undo the
  assignments made before it. \<open>define_register\<close> is the part of the function after
  its checks, from the two \<^verbatim>\<open>set\<close> calls to the end.
\<close>

definition define_register :: "env \<Rightarrow> registry \<Rightarrow> string \<Rightarrow> ctor \<Rightarrow> def_ref \<Rightarrow> exn option \<times> registry" where
  "define_register env s tagName c d =
     (let s2 = s\<lparr> definitionsByTag := (definitionsByTag s)(tagName \<mapsto> d),
                  definitionsByClass := (definitionsByClass s)(c \<mapsto> d) \<rparr>;
          r = (case pivotCtorByTag s2 tagName of
                 Some p \<Rightarrow> (None, p, s2)
               | None \<Rightarrow>
                   (let pc = createPivotingClass s2 tagName d;
                        nd = nativeDefine env (snd pc) tagName (fst pc)
                    in (fst nd, fst pc, snd nd)))
      in case r of
           (Some e, p, s4) \<Rightarrow> (Some e, s4)
         | (None, p, s4) \<Rightarrow>
             (case flush_awaiting env (set_PivotCtor s4 d p) tagName d of
                (Some e, s6) \<Rightarrow> (Some e, s6)
              | (None, s6) \<Rightarrow>
                  (None, (case definedResolvers s6 tagName of
                            None \<Rightarrow> s6
                          | Some resolver \<Rightarrow> resolve_promise s6 resolver c))))"

definition define_patched :: "env \<Rightarrow> registry \<Rightarrow> string \<Rightarrow> ctor \<Rightarrow> ElementDefinitionOptions option \<Rightarrow> exn option \<times> registry" where
  "define_patched env s tagName c options =
     (if extends_given options then (Some (DOMException ExtendsNotSupported), s)
      else case nativeGet env s tagName of
        Inl e \<Rightarrow> (Some e, s)
      | Inr n \<Rightarrow>
          let tag = toLowerCase env tagName in
          if definitionsByTag s tag \<noteq> None
          then (Some (DOMException (NameAlreadyUsed tag)), s)
          else case getDefinitionForConstructor s c of
            Inl e \<Rightarrow> (Some e, s)
          | Inr (d, s1) \<Rightarrow>
              if definitionsByClass s1 c \<noteq> None
              then (Some (DOMException ConstructorAlreadyUsed), s1)
              else define_register env s1 tag c d)"

text \<open>The patched \<^verbatim>\<open>get\<close>:
  \<^verbatim>\<open>nativeGet.call(this, tagName) && definitionsByTag.get(tagName)?.UserCtor\<close>.\<close>

definition get :: "env \<Rightarrow> registry \<Rightarrow> string \<Rightarrow> exn + ctor option" where
  "get env s tagName =
     (case nativeGet env s tagName of
        Inl e \<Rightarrow> Inl e
      | Inr None \<Rightarrow> Inr None
      | Inr (Some n) \<Rightarrow>
          Inr (case definitionsByTag s tagName of
                 None \<Rightarrow> None
               | Some d \<Rightarrow> map_option UserCtor (lookup_def s d)))"

text \<open>
  The patched \<^verbatim>\<open>whenDefined\<close>. The browser's \<^verbatim>\<open>whenDefined\<close> rejects a name that is
  not valid and otherwise settles once the name is defined in the browser's registry;
  the callback given to \<^verbatim>\<open>then\<close> runs after that. \<open>whenDefined_then\<close> is that callback:
  it answers with a constructor or with a promise of the module's own.
\<close>

datatype when_defined =
    Rejected exn
  | AwaitsNative
  | ThenCtor ctor
  | ThenPromise promise_ref

definition whenDefined_then :: "registry \<Rightarrow> string \<Rightarrow> when_defined \<times> registry" where
  "whenDefined_then s tagName =
     (case definedPromises s tagName of
        Some promise \<Rightarrow> (ThenPromise promise, s)
      | None \<Rightarrow>
          (case definitionsByTag s tagName of
             Some d \<Rightarrow>
               (case lookup_def s d of
                  Some df \<Rightarrow> (ThenCtor (UserCtor df), s)
                | None \<Rightarrow> (Rejected (TypeError ''Cannot read properties of undefined''), s))
           | None \<Rightarrow>
               let promise = length (promises s) in
               (ThenPromise promise,
                s\<lparr> promises := promises s @ [Pending],
                   definedPromises := (definedPromises s)(tagName \<mapsto> promise),
                   definedResolvers := (definedResolvers s)(tagName \<mapsto> promise) \<rparr>)))"

definition whenDefined :: "env \<Rightarrow> registry \<Rightarrow> string \<Rightarrow> when_defined \<times> registry" where
  "whenDefined env s tagName =
     (if \<not> valid_name env tagName then (Rejected SyntaxError, s)
      else if nativeRegistry s tagName = None then (AwaitsNative, s)
      else whenDefined_then s tagName)"

text \<open>The constructor the promise \<^verbatim>\<open>whenDefined\<close> returned is resolved with, in a
  given state.\<close>

definition resolved_with :: "registry \<Rightarrow> when_defined \<Rightarrow> ctor option" where
  "resolved_with s w =
     (case w of
        ThenCtor c \<Rightarrow> Some c
      | ThenPromise p \<Rightarrow>
          (if p < length (promises s)
           then (case promises s ! p of Resolved c \<Rightarrow> Some c | Pending \<Rightarrow> None)
           else None)
      | _ \<Rightarrow> None)"

text \<open>
  The function \<^verbatim>\<open>patchCustomElementRegistry\<close> returns, with which the engine registers
  a tag of its own and obtains the pivoting class.
\<close>

definition registerPivot :: "env \<Rightarrow> registry \<Rightarrow> string \<Rightarrow> ctor \<Rightarrow> (exn + pivot) \<times> registry" where
  "registerPivot env s tagName0 c =
     (let tagName = toLowerCase env tagName0 in
      case pivotCtorByTag s tagName of
        Some p \<Rightarrow> (Inr p, s)
      | None \<Rightarrow>
          (case getDefinitionForConstructor s c of
             Inl e \<Rightarrow> (Inl e, s)
           | Inr (d, s1) \<Rightarrow>
               let pc = createPivotingClass s1 tagName d;
                   s3 = (snd pc)\<lparr> definitionsByTag := (definitionsByTag (snd pc))(tagName \<mapsto> d),
                                   definitionsByClass := (definitionsByClass (snd pc))(c \<mapsto> d) \<rparr>;
                   nd = nativeDefine env s3 tagName (fst pc)
               in (case fst nd of Some e \<Rightarrow> (Inl e, snd nd) | None \<Rightarrow> (Inr (fst pc), snd nd))))"

text \<open>
  What holds of every state the module's functions reach from the initial one:
  a tag with a pivoting class has a definition; the definition cached for a
  constructor is in the store and is the constructor's; a registered constructor
  has a cached definition; a promise kept for a tag has its resolver kept with it,
  is pending while the tag has no definition, and belongs to that tag alone.
\<close>

definition registry_inv :: "registry \<Rightarrow> bool" where
  "registry_inv s =
     ((\<forall>t. pivotCtorByTag s t \<noteq> None \<longrightarrow> definitionsByTag s t \<noteq> None)
      \<and> (\<forall>c d. definitionForConstructor s c = Some d \<longrightarrow>
             d < length (definitions s) \<and> UserCtor (definitions s ! d) = c)
      \<and> (\<forall>c. definitionsByClass s c \<noteq> None \<longrightarrow> definitionForConstructor s c \<noteq> None)
      \<and> (\<forall>t p. definedPromises s t = Some p \<longrightarrow>
             definedResolvers s t = Some p \<and> p < length (promises s)
             \<and> (definitionsByTag s t = None \<longrightarrow> promises s ! p = Pending))
      \<and> (\<forall>t p. definedResolvers s t = Some p \<longrightarrow> definedPromises s t = Some p)
      \<and> (\<forall>t t' p. definedPromises s t = Some p \<and> t' \<noteq> t \<longrightarrow> definedPromises s t' \<noteq> Some p))"


text \<open>The states the module reaches: from the initial one, by any calls of the
  patched \<^verbatim>\<open>define\<close> and \<^verbatim>\<open>whenDefined\<close> and of the engine's registration function,
  whether they throw or not (\<^verbatim>\<open>get\<close> changes nothing).\<close>

inductive reachable :: "env \<Rightarrow> registry \<Rightarrow> bool" for env :: env where
  reach_init: "reachable env init_registry"
| reach_define: "reachable env s \<Longrightarrow> reachable env (snd (define_patched env s tagName c options))"
| reach_whenDefined: "reachable env s \<Longrightarrow> reachable env (snd (whenDefined env s tagName))"
| reach_registerPivot: "reachable env s \<Longrightarrow> reachable env (snd (registerPivot env s tagName c))"

text \<open>The fields the upgrade of an element leaves alone: every map but the three
  that are keyed by elements, and the two stores.\<close>

definition same_tables :: "registry \<Rightarrow> registry \<Rightarrow> bool" where
  "same_tables s s' =
     (definitionsByTag s' = definitionsByTag s \<and> definitionsByClass s' = definitionsByClass s
      \<and> definitionForConstructor s' = definitionForConstructor s
      \<and> pivotCtorByTag s' = pivotCtorByTag s \<and> definitions s' = definitions s
      \<and> promises s' = promises s \<and> definedPromises s' = definedPromises s
      \<and> definedResolvers s' = definedResolvers s \<and> nativeRegistry s' = nativeRegistry s)"

text \<open>
  A concrete environment and constructor, for the examples: a browser whose \<^verbatim>\<open>get\<close>
  raises nothing, whose valid names hold a hyphen and no upper-case letter, and a
  user class with no callbacks whose construction succeeds.
\<close>

definition example_ctor :: ctor where
  "example_ctor =
     \<lparr> ctor_id = 0, has_prototype = True,
       proto_connectedCallback = None, proto_disconnectedCallback = None,
       proto_adoptedCallback = None, proto_attributeChangedCallback = None,
       static_observedAttributes = None \<rparr>"

definition example_env :: env where
  "example_env =
     \<lparr> valid_name = (\<lambda>t. CHR ''-'' \<in> set t \<and> ascii_toLowerCase t = t),
       get_checks_name = False,
       new_UserCtor = (\<lambda>c u. (None, None)),
       nativeHasAttribute = (\<lambda>e a. False),
       call_attributeChangedCallback = (\<lambda>cb e a. None),
       toLowerCase = ascii_toLowerCase \<rparr>"

definition example_registered :: registry where
  "example_registered = snd (define_patched example_env init_registry ''x-foo'' example_ctor None)"


section \<open>Compiled templates\<close>

text \<open>
  The template compiler's fixtures (\<^verbatim>\<open>expected.js\<close>) are generated programs: a module
  with hoisted declarations and a render function \<^verbatim>\<open>tmpl($api, $cmp, $slotset, $ctx)\<close>.
  The render functions are embedded as they are written. The runtime they call
  (\<^verbatim>\<open>$api\<close>, \<^verbatim>\<open>renderApi\<close>, \<^verbatim>\<open>parseFragment\<close>) is imported from \<^verbatim>\<open>lwc\<close> and is not among
  the sources: a call that only builds a node is recorded as the node it asks for,
  with its arguments.
\<close>

datatype key = IntKey nat | StrKey string | PairKey nat jsval

text \<open>The data object of a node. A field the object literal does not give is the
  empty list, \<open>None\<close> or \<open>False\<close>.\<close>

record vdata =
  data_key :: "key option"
  attrs :: "(string \<times> jsval) list"
  classMap :: "(string \<times> bool) list"
  styleDecls :: "(string \<times> string \<times> bool) list"
  isStatic :: bool

definition no_data :: vdata where
  "no_data = \<lparr> data_key = None, attrs = [], classMap = [], styleDecls = [], isStatic = False \<rparr>"

datatype vnode =
    VText string
  | VComment string
  | VElement string vdata "vnode list"
  | VStaticFragment jsval key
  | VSetOwner vnode
  | VSlot string vdata "vnode list"

definition api_text :: "string \<Rightarrow> vnode" where
  "api_text s = VText s"

definition api_comment :: "string \<Rightarrow> vnode" where
  "api_comment s = VComment s"

definition api_element :: "string \<Rightarrow> vdata \<Rightarrow> vnode list \<Rightarrow> vnode" where
  "api_element tag data children = VElement tag data children"

definition api_static_fragment :: "jsval \<Rightarrow> key \<Rightarrow> vnode" where
  "api_static_fragment fragment k = VStaticFragment fragment k"

definition api_set_owner :: "vnode \<Rightarrow> vnode" where
  "api_set_owner v = VSetOwner v"

text \<open>
  Modelled from the spec: \<^verbatim>\<open>api_key\<close> (\<^verbatim>\<open>$api.k\<close>), the runtime's per-item key
  derivation, is not among the sources. The spec's data model has a key be "an
  integer or \<open>(templateKey, iterationIdentity)\<close> pair"; the combination of the
  structural position with the author's key is that pair.
\<close>

definition api_key :: "nat \<Rightarrow> jsval \<Rightarrow> key" where
  "api_key compilerKey iterationIdentity = PairKey compilerKey iterationIdentity"

text \<open>
  Modelled from the spec: \<^verbatim>\<open>api_flatten\<close> (\<^verbatim>\<open>$api.f\<close>) and \<^verbatim>\<open>api_iterator\<close> (\<^verbatim>\<open>$api.i\<close>) are
  not among the sources. The spec has a "flattening combinator wherever a construct
  (iteration, conditional) can produce zero, one, or many siblings", and "iteration
  over a collection": an entry of the array given to \<^verbatim>\<open>api_flatten\<close> is one node or an
  array of nodes, and the iterator calls its function on each item in order and
  gathers the nodes.
\<close>

datatype child = One vnode | Many "vnode list"

fun child_nodes :: "child \<Rightarrow> vnode list" where
  "child_nodes (One v) = [v]"
| "child_nodes (Many vs) = vs"

definition api_flatten :: "child list \<Rightarrow> vnode list" where
  "api_flatten items = concat (map child_nodes items)"

definition api_iterator :: "'a list \<Rightarrow> ('a \<Rightarrow> child) \<Rightarrow> vnode list" where
  "api_iterator iterable factory = concat (map (\<lambda>item. child_nodes (factory item)) iterable)"

text \<open>
  Modelled from the spec: \<^verbatim>\<open>api_slot\<close> (\<^verbatim>\<open>$api.s\<close>), the runtime's slot projection, is
  not among the sources. The spec: a slot's default content is "rendered only when
  the caller supplies no content for that slot"; with non-empty content for the slot
  the call "yields exactly the caller-supplied content with no merge of default
  content". The slot set maps a slot name to the caller's nodes.
\<close>

type_synonym slotset = "string \<rightharpoonup> vnode list"

definition api_slot :: "string \<Rightarrow> vdata \<Rightarrow> vnode list \<Rightarrow> slotset \<Rightarrow> vnode" where
  "api_slot slotName data children slotset =
     VSlot slotName data
       (case slotset slotName of
          None \<Rightarrow> children
        | Some supplied \<Rightarrow> if supplied = [] then children else supplied)"

text \<open>
  The tagged template \<^verbatim>\<open>parseFragment\<close> receives: the literal pieces and, between
  them, the numbers the compiler put in the holes.
\<close>

datatype tpl_part = Lit string | Hole nat

type_synonym markup = "tpl_part list"

text \<open>
  The state of a compiled module between calls of its render function: the
  variables \<^verbatim>\<open>$fragment1\<close>, \<^verbatim>\<open>$fragment2\<close>, ... (by number; \<^verbatim>\<open>let $fragment1;\<close> leaves
  \<^verbatim>\<open>undefined\<close>), and the fragments constructed so far. A fragment is an object; its
  identity is its place in the list of constructed fragments.
\<close>

record module_state =
  fragment :: "nat \<Rightarrow> jsval"
  instances :: "markup list"

definition init_module :: module_state where
  "init_module = \<lparr> fragment = (\<lambda>n. JUndefined), instances = [] \<rparr>"

text \<open>
  Modelled from the spec: \<^verbatim>\<open>parseFragment\<close> is not among the sources. The function it
  returns (\<^verbatim>\<open>$hoisted1\<close>) is the "hoisted creation expression": each call constructs
  a new instance of the static structure.
\<close>

definition hoist :: "markup \<Rightarrow> module_state \<Rightarrow> jsval \<times> module_state" where
  "hoist hoisted m = (JObj (length (instances m)), m\<lparr> instances := instances m @ [hoisted] \<rparr>)"

text \<open>The expression \<^verbatim>\<open>$fragmentN || ($fragmentN = $hoistedN())\<close>.\<close>

definition fragment_or_hoist :: "nat \<Rightarrow> markup \<Rightarrow> module_state \<Rightarrow> jsval \<times> module_state" where
  "fragment_or_hoist n hoisted m =
     (if truthy (fragment m n) then (fragment m n, m)
      else (let r = hoist hoisted m
            in (fst r, (snd r)\<lparr> fragment := (fragment (snd r))(n := fst r) \<rparr>)))"

text \<open>What the fixtures read of the component \<^verbatim>\<open>$cmp\<close>.\<close>

record item =
  item_id :: jsval

record component =
  getReadOnly :: jsval
  isTrue :: jsval
  items :: "item list"


subsection \<open>A static paragraph and an input with a bound attribute\<close>

text \<open>The fixture with \<^verbatim>\<open><p hidden>x</p>\<close> and
  \<^verbatim>\<open><input readonly={getReadOnly} disabled title="foo">\<close>. The call of \<^verbatim>\<open>api_element\<close>
  for the input gives no children.\<close>

definition hoisted1_readonly :: markup where
  "hoisted1_readonly = [Lit ''<p hidden'', Hole 1, Hole 2, Lit ''>x</p>'']"

definition tmpl_readonly :: "component \<Rightarrow> module_state \<Rightarrow> vnode list \<times> module_state" where
  "tmpl_readonly cmp m =
     (let f1 = fragment_or_hoist 1 hoisted1_readonly m
      in ([api_static_fragment (fst f1) (IntKey 1),
           api_element ''input''
             (no_data\<lparr> attrs := [(''readonly'', if truthy (getReadOnly cmp) then JStr [] else JNull),
                                  (''disabled'', JStr []),
                                  (''title'', JStr ''foo'')],
                       data_key := Some (IntKey 2) \<rparr>) []],
          snd f1))"

text \<open>The render function called once for each component state of a list, the
  module state going from one call to the next.\<close>

fun render_each :: "('c \<Rightarrow> module_state \<Rightarrow> vnode list \<times> module_state) \<Rightarrow> 'c list \<Rightarrow>
    module_state \<Rightarrow> vnode list list \<times> module_state" where
  "render_each tmpl [] m = ([], m)"
| "render_each tmpl (c # cs) m =
     (let r = tmpl c m; rs = render_each tmpl cs (snd r)
      in (fst r # fst rs, snd rs))"

text \<open>The static fragments of a rendered tree, each with its key, and the keys of
  a rendered tree, in document order.\<close>

fun statics :: "vnode \<Rightarrow> (key \<times> jsval) list" where
  "statics (VText s) = []"
| "statics (VComment s) = []"
| "statics (VElement tag data children) = concat (map statics children)"
| "statics (VStaticFragment f k) = [(k, f)]"
| "statics (VSetOwner v) = statics v"
| "statics (VSlot name data children) = concat (map statics children)"

fun keys_of :: "vnode \<Rightarrow> key list" where
  "keys_of (VText s) = []"
| "keys_of (VComment s) = []"
| "keys_of (VElement tag data children) =
     (case data_key data of None \<Rightarrow> [] | Some k \<Rightarrow> [k]) @ concat (map keys_of children)"
| "keys_of (VStaticFragment f k) = [k]"
| "keys_of (VSetOwner v) = keys_of v"
| "keys_of (VSlot name data children) =
     (case data_key data of None \<Rightarrow> [] | Some k \<Rightarrow> [k]) @ concat (map keys_of children)"

text \<open>The values an attribute has on the elements at the top of a rendered list.\<close>

fun attr_values :: "string \<Rightarrow> vnode list \<Rightarrow> jsval list" where
  "attr_values a [] = []"
| "attr_values a (VElement tag data children # vs) =
     (case map_of (attrs data) a of None \<Rightarrow> [] | Some v \<Rightarrow> [v]) @ attr_values a vs"
| "attr_values a (v # vs) = attr_values a vs"


text \<open>Component states for the examples.\<close>

definition example_components :: "component list" where
  "example_components =
     [\<lparr> getReadOnly = JBool True, isTrue = JBool True, items = [] \<rparr>,
      \<lparr> getReadOnly = JUndefined, isTrue = JBool True, items = [] \<rparr>,
      \<lparr> getReadOnly = JStr ''yes'', isTrue = JBool False, items = [] \<rparr>]"

definition example_list_component :: component where
  "example_list_component =
     \<lparr> getReadOnly = JUndefined, isTrue = JBool True,
       items = [\<lparr> item_id = JNum 7 \<rparr>, \<lparr> item_id = JStr ''a'' \<rparr>] \<rparr>"


subsection \<open>Static siblings, iterations and keys\<close>

text \<open>
  The fixture with three sections: two static paragraphs \<^verbatim>\<open><p>Last child</p>\<close> in
  different sections, iterations over \<^verbatim>\<open>$cmp.items\<close> keyed by \<^verbatim>\<open>item.id\<close>, one of them
  under the condition \<^verbatim>\<open>$cmp.isTrue\<close>, and a static section at the end. The entries of
  the returned array are evaluated from left to right, so the three fragment
  expressions run in the order 1, 2, 3.
\<close>

definition hoisted1_siblings :: markup where
  "hoisted1_siblings = [Lit ''<p'', Hole 1, Hole 2, Lit ''>Last child</p>'']"

definition hoisted2_siblings :: markup where
  "hoisted2_siblings = [Lit ''<p'', Hole 1, Hole 2, Lit ''>Last child</p>'']"

definition hoisted3_siblings :: markup where
  \<open>hoisted3_siblings =
     [Lit ''<section class="s4'', Hole 0, Lit ''"'', Hole 2,
      Lit ''><p'', Hole 1, Hole 2, Lit ''>Other child1</p><p'', Hole 1, Hole 2,
      Lit ''>Other child2</p></section>'']\<close>

definition stc0_siblings :: vdata where
  "stc0_siblings = no_data\<lparr> classMap := [(''s1'', True)], data_key := Some (IntKey 0) \<rparr>"

definition stc1_siblings :: vdata where
  "stc1_siblings = no_data\<lparr> classMap := [(''s2'', True)], data_key := Some (IntKey 3) \<rparr>"

definition stc2_siblings :: "vnode list" where
  "stc2_siblings = []"

definition stc3_siblings :: vdata where
  "stc3_siblings = no_data\<lparr> classMap := [(''s3'', True)], data_key := Some (IntKey 6) \<rparr>"

definition tmpl_siblings :: "component \<Rightarrow> module_state \<Rightarrow> vnode list \<times> module_state" where
  "tmpl_siblings cmp m =
     (let f1 = fragment_or_hoist 1 hoisted1_siblings m;
          f2 = fragment_or_hoist 2 hoisted2_siblings (snd f1);
          f3 = fragment_or_hoist 3 hoisted3_siblings (snd f2)
      in ([api_element ''section'' stc0_siblings
             (api_flatten
                [One (api_text ''Other Child''),
                 Many (api_iterator (items cmp) (\<lambda>item. One (api_text ''X''))),
                 One (api_static_fragment (fst f1) (IntKey 2))]),
           api_element ''section'' stc1_siblings
             (api_flatten
                [One (api_text ''Other Child''),
                 Many (if truthy (isTrue cmp)
                       then api_iterator (items cmp)
                              (\<lambda>item. Many
                                 [api_element ''p''
                                    (no_data\<lparr> data_key := Some (api_key 4 (item_id item)) \<rparr>)
                                    [api_text ''X1''],
                                  api_element ''p''
                                    (no_data\<lparr> data_key := Some (api_key 5 (item_id item)) \<rparr>)
                                    [api_text ''X2'']])
                       else stc2_siblings)]),
           api_element ''section'' stc3_siblings
             (api_flatten
                [One (api_static_fragment (fst f2) (IntKey 8)),
                 Many (api_iterator (items cmp)
                         (\<lambda>item. One (api_element ''div''
                                         (no_data\<lparr> data_key := Some (api_key 9 (item_id item)) \<rparr>)
                                         [])))]),
           api_static_fragment (fst f3) (IntKey 11)],
          snd f3))"


subsection \<open>Slots with default content\<close>

text \<open>
  The fixture \<^verbatim>\<open><section><slot name="test">...</slot></section>\<close>, whose default content
  is a hoisted fragment, and the fixture with the unnamed slot, whose default content
  is an element built when the module is loaded. The default content is an argument
  of \<^verbatim>\<open>api_slot\<close>, so it is evaluated before the call whatever the slot set holds.
  \<open>slots_\<close> is \<^verbatim>\<open>tmpl.slots\<close>.
\<close>

definition hoisted1_slot_test :: markup where
  "hoisted1_slot_test = [Lit ''<p'', Hole 1, Hole 2, Lit ''>Test slot content</p>'']"

definition stc0_slot_test :: vdata where
  "stc0_slot_test = no_data\<lparr> data_key := Some (IntKey 0) \<rparr>"

definition stc1_slot_test :: vdata where
  "stc1_slot_test = no_data\<lparr> attrs := [(''name'', JStr ''test'')], data_key := Some (IntKey 1) \<rparr>"

definition tmpl_slot_test :: "slotset \<Rightarrow> module_state \<Rightarrow> vnode list \<times> module_state" where
  "tmpl_slot_test slotset m =
     (let f1 = fragment_or_hoist 1 hoisted1_slot_test m
      in ([api_element ''section'' stc0_slot_test
             [api_slot ''test'' stc1_slot_test
                [api_static_fragment (fst f1) (StrKey ''@test:3'')]
                slotset]],
          snd f1))"

definition slots_slot_test :: "string list" where
  "slots_slot_test = [''test'']"

definition hoisted1_slot_definition :: vnode where
  "hoisted1_slot_definition =
     api_element ''p'' (no_data\<lparr> data_key := Some (IntKey 2), isStatic := True \<rparr>)
       [api_text ''Default slot content'']"

definition stc0_slot_definition :: vdata where
  "stc0_slot_definition = no_data\<lparr> data_key := Some (IntKey 0) \<rparr>"

definition stc1_slot_definition :: vdata where
  "stc1_slot_definition = no_data\<lparr> data_key := Some (IntKey 1) \<rparr>"

definition tmpl_slot_definition :: "slotset \<Rightarrow> vnode list" where
  "tmpl_slot_definition slotset =
     [api_element ''section'' stc0_slot_definition
        [api_slot [] stc1_slot_definition [api_set_owner hoisted1_slot_definition] slotset]]"

definition slots_slot_definition :: "string list" where
  "slots_slot_definition = [[]]"


subsection \<open>Style declarations\<close>

text \<open>The fixture \<^verbatim>\<open>base/style-important\<close>: one static \<^verbatim>\<open>div\<close>, built when the module is
  loaded.\<close>

definition hoisted1_style_important :: vnode where
  "hoisted1_style_important =
     api_element ''div''
       (no_data\<lparr> styleDecls := [(''background'', ''blue'', True),
                                  (''color'', ''red'', False),
                                  (''opacity'', ''0.5'', True)],
                 data_key := Some (IntKey 0), isStatic := True \<rparr>)
       []"

definition tmpl_style_important :: "vnode list" where
  "tmpl_style_important = [api_set_owner hoisted1_style_important]"

fun style_decls_of :: "vnode \<Rightarrow> (string \<times> string \<times> bool) list" where
  "style_decls_of (VElement tag data children) = styleDecls data"
| "style_decls_of (VSetOwner v) = style_decls_of v"
| "style_decls_of v = []"

text \<open>
  Modelled from the spec: the compiler's reading of a \<^verbatim>\<open>style\<close> attribute is not among
  the sources. The spec: "Style declarations (e.g., \<^verbatim>\<open>!important\<close> flags) are emitted as
  ordered triples (property, value, importantFlag) preserving authored order
  exactly". The attribute text is a sequence of declarations separated by
  semicolons; a declaration is a property, a colon and a value; a value that ends in
  \<^verbatim>\<open>!important\<close> has the flag, and the value is what comes before it.
\<close>

fun split_on :: "char \<Rightarrow> string \<Rightarrow> string list" where
  "split_on c [] = [[]]"
| "split_on c (x # xs) =
     (if x = c then [] # split_on c xs
      else (case split_on c xs of
              [] \<Rightarrow> [[x]]
            | y # ys \<Rightarrow> (x # y) # ys))"

definition strip_important :: "string \<Rightarrow> string \<times> bool" where
  "strip_important v =
     (let n = length v - length ''!important''
      in if length ''!important'' \<le> length v \<and> drop n v = ''!important''
         then (take n v, True) else (v, False))"

definition parse_declaration :: "string \<Rightarrow> string \<times> string \<times> bool" where
  "parse_declaration d =
     (let property = takeWhile (\<lambda>x. x \<noteq> CHR '':'') d;
          v = strip_important (drop (Suc (length property)) d)
      in (property, fst v, snd v))"

definition parse_style_attribute :: "string \<Rightarrow> (string \<times> string \<times> bool) list" where
  "parse_style_attribute s =
     map parse_declaration (filter (\<lambda>d. d \<noteq> []) (split_on (CHR '';'') s))"


text \<open>
  Modelled from the spec: what "authored order" and "no reordering, no deduplication"
  are said of. \<open>style_text\<close> is the attribute text an author writes for a list of
  declarations; a declaration is \<open>authored\<close> when its property holds no colon or
  semicolon, its value holds no semicolon, and a value without the flag does not end
  in \<^verbatim>\<open>!important\<close>.
\<close>

definition declaration_text :: "string \<times> string \<times> bool \<Rightarrow> string" where
  "declaration_text d =
     fst d @ '':'' @ fst (snd d) @ (if snd (snd d) then ''!important'' else [])"

fun style_text :: "(string \<times> string \<times> bool) list \<Rightarrow> string" where
  "style_text [] = []"
| "style_text [d] = declaration_text d"
| "style_text (d # d' # ds) = declaration_text d @ '';'' @ style_text (d' # ds)"

definition ends_important :: "string \<Rightarrow> bool" where
  "ends_important v =
     (length ''!important'' \<le> length v
      \<and> drop (length v - length ''!important'') v = ''!important'')"

definition authored :: "string \<times> string \<times> bool \<Rightarrow> bool" where
  "authored d =
     (CHR '':'' \<notin> set (fst d) \<and> CHR '';'' \<notin> set (fst d)
      \<and> CHR '';'' \<notin> set (fst (snd d))
      \<and> (snd (snd d) \<or> \<not> ends_important (fst (snd d))))"


section \<open>Properties of the stylesheet function\<close>

text \<open>
  C8. For a non-empty scoping token \<open>t\<close> the shadow selector is \<open>[t]\<close> and the host
  selector is \<open>[t-host]\<close>, two different attribute selectors, and the stylesheet text
  carries the shadow selector after each scoped selector. With the token absent or
  empty both selectors are the empty string and the stylesheet text is unscoped.
\<close>

theorem stylesheet_scoping:
  "(t \<noteq> [] \<longrightarrow>
      shadowSelector (Some t) = ''['' @ t @ '']''
    \<and> hostSelector (Some t) = ''['' @ t @ ''-host]''
    \<and> hostSelector (Some t) \<noteq> shadowSelector (Some t)
    \<and> stylesheet (Some t) a d = ''['' @ t @ '']::after {}h1['' @ t @ '']::before {}'')
   \<and> shadowSelector None = [] \<and> hostSelector None = []
   \<and> shadowSelector (Some []) = [] \<and> hostSelector (Some []) = []
   \<and> stylesheet None a d = ''::after {}h1::before {}''
   \<and> stylesheet (Some []) a d = ''::after {}h1::before {}''"
proof -
  have neq: "t @ ''-host]'' \<noteq> t @ '']''"
    by simp
  show ?thesis
    using neq by (simp add: shadowSelector_def hostSelector_def stylesheet_def)
qed

theorem stylesheet_scoping_witness:
  "shadowSelector (Some ''abc'') = ''[abc]''
   \<and> hostSelector (Some ''abc'') = ''[abc-host]''
   \<and> stylesheet (Some ''abc'') False False = ''[abc]::after {}h1[abc]::before {}''"
  using stylesheet_scoping [of "''abc''" False False] by simp


section \<open>Properties of the patched registry\<close>

lemma same_tables_refl: "same_tables s s"
  by (simp add: same_tables_def)

lemma same_tables_trans: "same_tables s s1 \<Longrightarrow> same_tables s1 s2 \<Longrightarrow> same_tables s s2"
  by (simp add: same_tables_def)

lemma internalUpgrade_same_tables:
  "same_tables s (snd (internalUpgrade env s i rd d))"
  by (simp add: internalUpgrade_def same_tables_def Let_def lookup_def_def
      split: option.splits prod.splits)

lemma upgrade_awaiting_same_tables:
  "same_tables s (snd (upgrade_awaiting env d es s))"
proof (induction es arbitrary: s)
  case Nil
  show ?case by (simp add: same_tables_refl)
next
  case (Cons e es)
  show ?case
  proof (cases "pendingRegistryForElement s e")
    case None
    then show ?thesis using Cons.IH [of s] by simp
  next
    case (Some rd)
    let ?s0 = "s\<lparr> pendingRegistryForElement := (pendingRegistryForElement s)(e := None) \<rparr>"
    obtain ex s' where iu: "internalUpgrade env ?s0 e rd d = (ex, s')"
      by (cases "internalUpgrade env ?s0 e rd d")
    have a: "same_tables s ?s0" by (simp add: same_tables_def)
    have b: "same_tables ?s0 s'" using internalUpgrade_same_tables [of ?s0 env e rd d] iu by simp
    have ab: "same_tables s s'" using a b by (rule same_tables_trans)
    show ?thesis
    proof (cases ex)
      case None
      have "same_tables s' (snd (upgrade_awaiting env d es s'))" by (rule Cons.IH)
      with ab have "same_tables s (snd (upgrade_awaiting env d es s'))" by (rule same_tables_trans)
      then show ?thesis using Some iu None by simp
    next
      case (Some x)
      then show ?thesis using \<open>pendingRegistryForElement s e = Some rd\<close> iu ab by simp
    qed
  qed
qed

lemma flush_awaiting_same_tables:
  "same_tables s (snd (flush_awaiting env s t d))"
proof (cases "awaitingUpgrade s t")
  case None
  then show ?thesis by (simp add: flush_awaiting_def same_tables_refl)
next
  case (Some aw)
  let ?s0 = "s\<lparr> awaitingUpgrade := (awaitingUpgrade s)(t := None) \<rparr>"
  have a: "same_tables s ?s0" by (simp add: same_tables_def)
  have b: "same_tables ?s0 (snd (upgrade_awaiting env d aw ?s0))"
    by (rule upgrade_awaiting_same_tables)
  show ?thesis using Some same_tables_trans [OF a b] by (simp add: flush_awaiting_def)
qed

lemma getDefinitionForConstructor_tables:
  "getDefinitionForConstructor s c = Inr (d, s1) \<Longrightarrow>
     definitionsByTag s1 = definitionsByTag s \<and> definitionsByClass s1 = definitionsByClass s
     \<and> pivotCtorByTag s1 = pivotCtorByTag s \<and> nativeRegistry s1 = nativeRegistry s
     \<and> promises s1 = promises s \<and> definedPromises s1 = definedPromises s
     \<and> definedResolvers s1 = definedResolvers s
     \<and> definitionForConstructor s1 c = Some d"
  by (auto simp: getDefinitionForConstructor_def Let_def split: if_splits option.splits)

lemma set_PivotCtor_facts:
  "definitionsByTag (set_PivotCtor s d p) = definitionsByTag s
   \<and> nativeRegistry (set_PivotCtor s d p) = nativeRegistry s
   \<and> promises (set_PivotCtor s d p) = promises s
   \<and> definedPromises (set_PivotCtor s d p) = definedPromises s
   \<and> definedResolvers (set_PivotCtor s d p) = definedResolvers s
   \<and> length (definitions (set_PivotCtor s d p)) = length (definitions s)
   \<and> (d < length (definitions s) \<longrightarrow>
        UserCtor (definitions (set_PivotCtor s d p) ! d) = UserCtor (definitions s ! d))"
  by (simp add: set_PivotCtor_def lookup_def_def)

lemma define_register_success:
  assumes ok: "define_register env s1 tag c d = (None, s')"
    and nopivot: "pivotCtorByTag s1 tag = None"
    and alloc: "d < length (definitions s1)"
  shows "valid_name env tag \<and> definitionsByTag s' tag = Some d
     \<and> nativeRegistry s' tag \<noteq> None
     \<and> d < length (definitions s') \<and> UserCtor (definitions s' ! d) = UserCtor (definitions s1 ! d)
     \<and> definedPromises s' = definedPromises s1
     \<and> (case definedResolvers s1 tag of
           None \<Rightarrow> promises s' = promises s1
         | Some r \<Rightarrow> promises s' = promises (resolve_promise s1 r c))"
proof -
  let ?s2 = "s1\<lparr> definitionsByTag := (definitionsByTag s1)(tag \<mapsto> d),
                  definitionsByClass := (definitionsByClass s1)(c \<mapsto> d) \<rparr>"
  let ?pc = "createPivotingClass ?s2 tag d"
  let ?nd = "nativeDefine env (snd ?pc) tag (fst ?pc)"
  let ?s5 = "set_PivotCtor (snd ?nd) d (fst ?pc)"
  let ?fl = "flush_awaiting env ?s5 tag d"
  have nd: "fst ?nd = None"
    using ok nopivot by (simp add: define_register_def Let_def split: option.splits prod.splits)
  have fl: "fst ?fl = None"
    using ok nopivot nd by (simp add: define_register_def Let_def split: option.splits prod.splits)
  have s': "s' = (case definedResolvers (snd ?fl) tag of
                    None \<Rightarrow> snd ?fl
                  | Some resolver \<Rightarrow> resolve_promise (snd ?fl) resolver c)"
    using ok nopivot nd fl
    by (simp add: define_register_def Let_def split: option.splits prod.splits)
  have valid: "valid_name env tag" and nonat: "nativeRegistry (snd ?pc) tag = None"
    using nd by (auto simp: nativeDefine_def split: if_splits)
  have s4: "snd ?nd = (snd ?pc)\<lparr> nativeRegistry := (nativeRegistry (snd ?pc))(tag \<mapsto> NativePivot (fst ?pc)) \<rparr>"
    using valid nonat by (simp add: nativeDefine_def)
  have s4_facts: "definitionsByTag (snd ?nd) tag = Some d" "nativeRegistry (snd ?nd) tag \<noteq> None"
    "definitions (snd ?nd) = definitions s1" "promises (snd ?nd) = promises s1"
    "definedPromises (snd ?nd) = definedPromises s1" "definedResolvers (snd ?nd) = definedResolvers s1"
    unfolding s4 by (simp_all add: createPivotingClass_def Let_def)
  have s5_facts: "definitionsByTag ?s5 tag = Some d" "nativeRegistry ?s5 tag \<noteq> None"
    "d < length (definitions ?s5)" "UserCtor (definitions ?s5 ! d) = UserCtor (definitions s1 ! d)"
    "promises ?s5 = promises s1"
    "definedPromises ?s5 = definedPromises s1" "definedResolvers ?s5 = definedResolvers s1"
    using s4_facts alloc set_PivotCtor_facts [of "snd ?nd" d "fst ?pc"] by simp_all
  have st: "same_tables ?s5 (snd ?fl)" by (rule flush_awaiting_same_tables)
  have s6_facts: "definitionsByTag (snd ?fl) tag = Some d" "nativeRegistry (snd ?fl) tag \<noteq> None"
    "d < length (definitions (snd ?fl))"
    "UserCtor (definitions (snd ?fl) ! d) = UserCtor (definitions s1 ! d)"
    "promises (snd ?fl) = promises s1"
    "definedPromises (snd ?fl) = definedPromises s1" "definedResolvers (snd ?fl) = definedResolvers s1"
    using s5_facts st by (simp_all add: same_tables_def)
  show ?thesis
  proof (cases "definedResolvers s1 tag")
    case None
    then have "s' = snd ?fl" using s' s6_facts(7) by simp
    then show ?thesis using valid s6_facts None by simp
  next
    case (Some r)
    then have "s' = resolve_promise (snd ?fl) r c" using s' s6_facts(7) by simp
    then show ?thesis using valid s6_facts Some by (simp add: resolve_promise_def)
  qed
qed


lemma invD_pivot:
  "registry_inv s \<Longrightarrow> pivotCtorByTag s t = Some p \<Longrightarrow> definitionsByTag s t \<noteq> None"
  unfolding registry_inv_def by blast

lemma invD_cached:
  "registry_inv s \<Longrightarrow> definitionForConstructor s c = Some d \<Longrightarrow>
     d < length (definitions s) \<and> UserCtor (definitions s ! d) = c"
  unfolding registry_inv_def by blast

lemma invD_class:
  "registry_inv s \<Longrightarrow> definitionsByClass s c = Some d \<Longrightarrow> definitionForConstructor s c \<noteq> None"
  unfolding registry_inv_def by blast

lemma invD_promise:
  "registry_inv s \<Longrightarrow> definedPromises s t = Some p \<Longrightarrow>
     definedResolvers s t = Some p \<and> p < length (promises s)
     \<and> (definitionsByTag s t = None \<longrightarrow> promises s ! p = Pending)"
  unfolding registry_inv_def by blast

lemma invD_resolver:
  "registry_inv s \<Longrightarrow> definedResolvers s t = Some p \<Longrightarrow> definedPromises s t = Some p"
  unfolding registry_inv_def by blast

lemma invD_inj:
  "registry_inv s \<Longrightarrow> definedPromises s t = Some p \<Longrightarrow> definedPromises s t' = Some p \<Longrightarrow> t = t'"
  unfolding registry_inv_def by blast

lemma registry_invI:
  assumes "\<And>t p. pivotCtorByTag s t = Some p \<Longrightarrow> definitionsByTag s t \<noteq> None"
    and "\<And>c d. definitionForConstructor s c = Some d \<Longrightarrow>
           d < length (definitions s) \<and> UserCtor (definitions s ! d) = c"
    and "\<And>c d. definitionsByClass s c = Some d \<Longrightarrow> definitionForConstructor s c \<noteq> None"
    and "\<And>t p. definedPromises s t = Some p \<Longrightarrow>
           definedResolvers s t = Some p \<and> p < length (promises s)
           \<and> (definitionsByTag s t = None \<longrightarrow> promises s ! p = Pending)"
    and "\<And>t p. definedResolvers s t = Some p \<Longrightarrow> definedPromises s t = Some p"
    and "\<And>t t' p. definedPromises s t = Some p \<Longrightarrow> definedPromises s t' = Some p \<Longrightarrow> t = t'"
  shows "registry_inv s"
  unfolding registry_inv_def
proof (intro conjI allI impI)
  fix t assume "pivotCtorByTag s t \<noteq> None"
  then show "definitionsByTag s t \<noteq> None" using assms(1) by (cases "pivotCtorByTag s t") simp_all
next
  fix c d assume "definitionForConstructor s c = Some d"
  then show "d < length (definitions s)" "UserCtor (definitions s ! d) = c"
    using assms(2) by simp_all
next
  fix c assume "definitionsByClass s c \<noteq> None"
  then show "definitionForConstructor s c \<noteq> None"
    using assms(3) by (cases "definitionsByClass s c") simp_all
next
  fix t p assume a: "definedPromises s t = Some p"
  show "definedResolvers s t = Some p" using assms(4) [OF a] by simp
  show "p < length (promises s)" using assms(4) [OF a] by simp
  assume "definitionsByTag s t = None"
  then show "promises s ! p = Pending" using assms(4) [OF a] by simp
next
  fix t p assume "definedResolvers s t = Some p"
  then show "definedPromises s t = Some p" by (rule assms(5))
next
  fix t t' p assume "definedPromises s t = Some p \<and> t' \<noteq> t"
  then show "definedPromises s t' \<noteq> Some p" using assms(6) by blast
qed

lemma getDefinitionForConstructor_inv:
  assumes inv: "registry_inv s" and g: "getDefinitionForConstructor s c = Inr (d, s1)"
  shows "registry_inv s1 \<and> d < length (definitions s1) \<and> UserCtor (definitions s1 ! d) = c"
proof (cases "definitionForConstructor s c")
  case None
  then have s1: "s1 = s\<lparr> definitions := definitions s @ [createDefinitionRecord c],
                     definitionForConstructor := (definitionForConstructor s)(c \<mapsto> length (definitions s)) \<rparr>"
    and d: "d = length (definitions s)"
    using g by (auto simp: getDefinitionForConstructor_def Let_def split: if_splits)
  have "registry_inv s1"
  proof (rule registry_invI)
    fix t p assume "pivotCtorByTag s1 t = Some p"
    then show "definitionsByTag s1 t \<noteq> None" using invD_pivot [OF inv, of t p] by (simp add: s1)
  next
    fix c' d' assume a: "definitionForConstructor s1 c' = Some d'"
    show "d' < length (definitions s1) \<and> UserCtor (definitions s1 ! d') = c'"
    proof (cases "c' = c")
      case True
      then have "d' = length (definitions s)" using a by (simp add: s1)
      then show ?thesis using True by (simp add: s1 createDefinitionRecord_def)
    next
      case False
      then have "definitionForConstructor s c' = Some d'" using a by (simp add: s1)
      from invD_cached [OF inv this] show ?thesis by (simp add: s1 nth_append)
    qed
  next
    fix c' d' assume "definitionsByClass s1 c' = Some d'"
    then show "definitionForConstructor s1 c' \<noteq> None"
      using invD_class [OF inv, of c' d'] by (simp add: s1)
  next
    fix t p assume "definedPromises s1 t = Some p"
    then show "definedResolvers s1 t = Some p \<and> p < length (promises s1)
           \<and> (definitionsByTag s1 t = None \<longrightarrow> promises s1 ! p = Pending)"
      using invD_promise [OF inv, of t p] by (simp add: s1)
  next
    fix t p assume "definedResolvers s1 t = Some p"
    then show "definedPromises s1 t = Some p" using invD_resolver [OF inv, of t p] by (simp add: s1)
  next
    fix t t' p assume "definedPromises s1 t = Some p" "definedPromises s1 t' = Some p"
    then show "t = t'" using invD_inj [OF inv, of t p t'] by (simp add: s1)
  qed
  then show ?thesis
    unfolding s1 d by (simp add: createDefinitionRecord_def)
next
  case (Some d')
  then have "s1 = s" "d = d'"
    using g by (auto simp: getDefinitionForConstructor_def Let_def split: if_splits)
  then show ?thesis using inv invD_cached [OF inv Some] by simp
qed

text \<open>
  C9 (as amended). The patched \<^verbatim>\<open>define\<close> throws before it registers anything: with \<^verbatim>\<open>extends\<close>
  given in the options (a string that is not empty: the guard tests its truthiness)
  it throws the "not supported" \<^verbatim>\<open>DOMException\<close>; with the
  lower-cased tag name already in \<open>definitionsByTag\<close> it throws the "name already
  used" \<^verbatim>\<open>DOMException\<close>; with the constructor already in \<open>definitionsByClass\<close> it
  throws the "constructor already used" \<^verbatim>\<open>DOMException\<close>. The second and third are
  reached when the browser's \<^verbatim>\<open>get\<close> raised no \<^verbatim>\<open>SyntaxError\<close> for the name, the
  third when the constructor passed the test of \<^verbatim>\<open>getDefinitionForConstructor\<close>. In
  each of the three cases, whatever is thrown, the call throws and leaves
  \<open>definitionsByTag\<close> and \<open>definitionsByClass\<close> as they were; from a state the
  module reaches it leaves the whole state as it was. The duplicates are those of
  the module's own two tables; nothing is said of a name that only the browser's
  registry holds.
\<close>

theorem define_patched_throws:
  "(extends_given options \<longrightarrow>
      define_patched env s tagName c options = (Some (DOMException ExtendsNotSupported), s))
   \<and> (\<not> extends_given options \<and> (get_checks_name env \<longrightarrow> valid_name env tagName)
        \<and> definitionsByTag s (toLowerCase env tagName) \<noteq> None \<longrightarrow>
      define_patched env s tagName c options
        = (Some (DOMException (NameAlreadyUsed (toLowerCase env tagName))), s))
   \<and> (\<not> extends_given options \<and> (get_checks_name env \<longrightarrow> valid_name env tagName)
        \<and> definitionsByTag s (toLowerCase env tagName) = None
        \<and> has_prototype c \<and> definitionsByClass s c \<noteq> None \<longrightarrow>
      fst (define_patched env s tagName c options) = Some (DOMException ConstructorAlreadyUsed))
   \<and> (extends_given options \<or> definitionsByTag s (toLowerCase env tagName) \<noteq> None
        \<or> definitionsByClass s c \<noteq> None \<longrightarrow>
      fst (define_patched env s tagName c options) \<noteq> None
      \<and> definitionsByTag (snd (define_patched env s tagName c options)) = definitionsByTag s
      \<and> definitionsByClass (snd (define_patched env s tagName c options)) = definitionsByClass s)
   \<and> (registry_inv s \<and> (extends_given options \<or> definitionsByTag s (toLowerCase env tagName) \<noteq> None
        \<or> definitionsByClass s c \<noteq> None) \<longrightarrow>
      snd (define_patched env s tagName c options) = s)"
proof (intro conjI impI)
  assume "extends_given options"
  then show "define_patched env s tagName c options = (Some (DOMException ExtendsNotSupported), s)"
    by (simp add: define_patched_def)
next
  assume "\<not> extends_given options \<and> (get_checks_name env \<longrightarrow> valid_name env tagName)
        \<and> definitionsByTag s (toLowerCase env tagName) \<noteq> None"
  then show "define_patched env s tagName c options
        = (Some (DOMException (NameAlreadyUsed (toLowerCase env tagName))), s)"
    by (auto simp: define_patched_def nativeGet_def Let_def)
next
  assume a: "\<not> extends_given options \<and> (get_checks_name env \<longrightarrow> valid_name env tagName)
        \<and> definitionsByTag s (toLowerCase env tagName) = None
        \<and> has_prototype c \<and> definitionsByClass s c \<noteq> None"
  then have "\<exists>d s1. getDefinitionForConstructor s c = Inr (d, s1)"
    by (cases "definitionForConstructor s c")
       (simp_all add: getDefinitionForConstructor_def Let_def)
  then obtain d s1 where g: "getDefinitionForConstructor s c = Inr (d, s1)"
    by blast
  from getDefinitionForConstructor_tables [OF g] a have "definitionsByClass s1 c \<noteq> None" by simp
  with a g show "fst (define_patched env s tagName c options) = Some (DOMException ConstructorAlreadyUsed)"
    by (auto simp: define_patched_def nativeGet_def Let_def)
next
  assume a: "extends_given options \<or> definitionsByTag s (toLowerCase env tagName) \<noteq> None
        \<or> definitionsByClass s c \<noteq> None"
  let ?r = "define_patched env s tagName c options"
  have "fst ?r \<noteq> None \<and> definitionsByTag (snd ?r) = definitionsByTag s
      \<and> definitionsByClass (snd ?r) = definitionsByClass s"
  proof (cases "getDefinitionForConstructor s c")
    case (Inl e)
    with a show ?thesis
      by (auto simp: define_patched_def nativeGet_def Let_def)
  next
    case (Inr ds)
    obtain d s1 where ds: "ds = (d, s1)" by (cases ds)
    from getDefinitionForConstructor_tables [of s c d s1] Inr ds
    have t: "definitionsByTag s1 = definitionsByTag s" "definitionsByClass s1 = definitionsByClass s"
      by simp_all
    with a Inr ds show ?thesis
      by (auto simp: define_patched_def nativeGet_def Let_def)
  qed
  then show "fst ?r \<noteq> None" 
    and "definitionsByTag (snd ?r) = definitionsByTag s"
    and "definitionsByClass (snd ?r) = definitionsByClass s"
    by simp_all
next
  assume a: "registry_inv s \<and> (extends_given options
        \<or> definitionsByTag s (toLowerCase env tagName) \<noteq> None \<or> definitionsByClass s c \<noteq> None)"
  show "snd (define_patched env s tagName c options) = s"
  proof (cases "definitionsByClass s c")
    case None
    with a show ?thesis
      by (auto simp: define_patched_def nativeGet_def Let_def split: sum.splits)
  next
    case (Some d0)
    then obtain d where d: "definitionForConstructor s c = Some d"
      using a invD_class [of s c d0] by auto
    then have "getDefinitionForConstructor s c = Inr (d, s) \<or> (\<exists>e. getDefinitionForConstructor s c = Inl e)"
      by (simp add: getDefinitionForConstructor_def)
    with Some show ?thesis
      by (auto simp: define_patched_def nativeGet_def Let_def split: sum.splits)
  qed
qed


lemma define_patched_success:
  assumes ok: "fst (define_patched env s tagName c options) = None"
  shows "\<exists>d s1. getDefinitionForConstructor s c = Inr (d, s1)
     \<and> definitionsByTag s (toLowerCase env tagName) = None
     \<and> define_register env s1 (toLowerCase env tagName) c d
         = (None, snd (define_patched env s tagName c options))"
proof -
  have ne: "\<not> extends_given options" using ok by (auto simp: define_patched_def)
  obtain n where n: "nativeGet env s tagName = Inr n"
    using ok ne by (cases "nativeGet env s tagName") (simp_all add: define_patched_def)
  have nt: "definitionsByTag s (toLowerCase env tagName) = None"
    using ok ne n by (cases "definitionsByTag s (toLowerCase env tagName)")
      (simp_all add: define_patched_def Let_def)
  obtain d s1 where g: "getDefinitionForConstructor s c = Inr (d, s1)"
    using ok ne n nt by (cases "getDefinitionForConstructor s c")
      (auto simp: define_patched_def Let_def)
  have r: "define_patched env s tagName c options
      = define_register env s1 (toLowerCase env tagName) c d"
    using ok ne n nt g by (cases "definitionsByClass s1 c")
      (simp_all add: define_patched_def Let_def)
  then have "define_register env s1 (toLowerCase env tagName) c d
         = (None, snd (define_patched env s tagName c options))"
    using ok by (metis prod.collapse)
  with g nt show ?thesis by blast
qed

text \<open>
  After a successful patched \<^verbatim>\<open>define(tagName, C)\<close>, from a state the module reaches,
  the patched \<^verbatim>\<open>get\<close> of the lower-cased tag name returns \<open>C\<close> itself, and the promise
  \<^verbatim>\<open>whenDefined\<close> returns for the lower-cased tag name is resolved with \<open>C\<close>: neither
  answers with the pivoting class.
\<close>

theorem get_and_whenDefined_after_define:
  assumes inv: "registry_inv s"
    and ok: "fst (define_patched env s tagName c options) = None"
  shows "get env (snd (define_patched env s tagName c options)) (toLowerCase env tagName)
           = Inr (Some c)
     \<and> resolved_with
          (snd (whenDefined env (snd (define_patched env s tagName c options)) (toLowerCase env tagName)))
          (fst (whenDefined env (snd (define_patched env s tagName c options)) (toLowerCase env tagName)))
        = Some c"
proof -
  let ?tag = "toLowerCase env tagName"
  let ?s' = "snd (define_patched env s tagName c options)"
  from define_patched_success [OF ok] obtain d s1 where
    g: "getDefinitionForConstructor s c = Inr (d, s1)"
    and nt: "definitionsByTag s ?tag = None"
    and reg: "define_register env s1 ?tag c d = (None, ?s')"
    by blast
  from getDefinitionForConstructor_inv [OF inv g] have
    inv1: "registry_inv s1" and alloc: "d < length (definitions s1)"
    and uc: "UserCtor (definitions s1 ! d) = c"
    by simp_all
  from getDefinitionForConstructor_tables [OF g] have
    tabs: "definitionsByTag s1 = definitionsByTag s" "pivotCtorByTag s1 = pivotCtorByTag s"
      "promises s1 = promises s" "definedPromises s1 = definedPromises s"
      "definedResolvers s1 = definedResolvers s"
    by simp_all
  have nopivot: "pivotCtorByTag s1 ?tag = None"
    using invD_pivot [OF inv, of ?tag] nt tabs by (cases "pivotCtorByTag s ?tag") simp_all
  from define_register_success [OF reg nopivot alloc] have
    valid: "valid_name env ?tag" and bytag: "definitionsByTag ?s' ?tag = Some d"
    and nat: "nativeRegistry ?s' ?tag \<noteq> None"
    and alloc': "d < length (definitions ?s')"
    and uc': "UserCtor (definitions ?s' ! d) = UserCtor (definitions s1 ! d)"
    and dp: "definedPromises ?s' = definedPromises s1"
    and pr: "(case definedResolvers s1 ?tag of
           None \<Rightarrow> promises ?s' = promises s1
         | Some r \<Rightarrow> promises ?s' = promises (resolve_promise s1 r c))"
    by simp_all
  have getc: "get env ?s' ?tag = Inr (Some c)"
    using valid bytag nat alloc' uc' uc
    by (auto simp: get_def nativeGet_def lookup_def_def split: option.splits)
  have wd: "resolved_with (snd (whenDefined env ?s' ?tag)) (fst (whenDefined env ?s' ?tag)) = Some c"
  proof (cases "definedPromises s ?tag")
    case None
    then have "definedPromises ?s' ?tag = None" using dp tabs by simp
    then have "whenDefined env ?s' ?tag = (ThenCtor c, ?s')"
      using valid nat bytag alloc' uc' uc
      by (auto simp: whenDefined_def whenDefined_then_def lookup_def_def)
    then show ?thesis by (simp add: resolved_with_def)
  next
    case (Some p)
    then have p: "definedResolvers s ?tag = Some p" "p < length (promises s)"
      "promises s ! p = Pending"
      using invD_promise [OF inv Some] nt by simp_all
    have "promises ?s' = (promises s)[p := Resolved c]"
      using pr p tabs by (simp add: resolve_promise_def)
    moreover have "whenDefined env ?s' ?tag = (ThenPromise p, ?s')"
      using valid nat Some dp tabs
      by (auto simp: whenDefined_def whenDefined_then_def)
    ultimately show ?thesis using p by (simp add: resolved_with_def)
  qed
  from getc wd show ?thesis by simp
qed




lemmas registry_defs =
  define_patched_def define_register_def extends_given_def nativeGet_def nativeDefine_def
  getDefinitionForConstructor_def createPivotingClass_def createDefinitionRecord_def
  flush_awaiting_def set_PivotCtor_def lookup_def_def resolve_promise_def
  get_def whenDefined_def whenDefined_then_def resolved_with_def new_Set_def
  ascii_toLowerCase_def lower_char_def init_registry_def example_env_def example_ctor_def
  example_registered_def

lemma registry_inv_init: "registry_inv init_registry"
  by (simp add: registry_inv_def init_registry_def)

lemma example_registered_inv: "registry_inv example_registered"
  by (simp add: registry_inv_def registry_defs Let_def)

theorem define_patched_throws_witness:
  "define_patched example_env init_registry ''x-foo'' example_ctor
       (Some \<lparr> extends = Some ''div'' \<rparr>)
     = (Some (DOMException ExtendsNotSupported), init_registry)
   \<and> define_patched example_env example_registered ''X-Foo''
        (example_ctor \<lparr> ctor_id := 1 \<rparr>) None
     = (Some (DOMException (NameAlreadyUsed ''x-foo'')), example_registered)
   \<and> fst (define_patched example_env example_registered ''x-bar'' example_ctor None)
     = Some (DOMException ConstructorAlreadyUsed)
   \<and> snd (define_patched example_env example_registered ''x-bar'' example_ctor None)
     = example_registered"
proof -
  have l: "toLowerCase example_env ''X-Foo'' = ''x-foo''"
    "toLowerCase example_env ''x-bar'' = ''x-bar''"
    by (simp_all add: example_env_def ascii_toLowerCase_def lower_char_def)
  have g: "\<not> get_checks_name example_env" by (simp add: example_env_def)
  have e1: "extends_given (Some \<lparr> extends = Some ''div'' \<rparr>)" "\<not> extends_given None"
    by (simp_all add: extends_given_def)
  have t: "definitionsByTag example_registered ''x-foo'' \<noteq> None"
    "definitionsByTag example_registered ''x-bar'' = None"
    "definitionsByClass example_registered example_ctor \<noteq> None"
    "has_prototype example_ctor"
    by (simp_all add: registry_defs Let_def)
  show ?thesis
    using define_patched_throws [of "Some \<lparr> extends = Some ''div'' \<rparr>" example_env init_registry
        "''x-foo''" example_ctor]
      define_patched_throws [of None example_env example_registered "''X-Foo''"
        "example_ctor \<lparr> ctor_id := 1 \<rparr>"]
      define_patched_throws [of None example_env example_registered "''x-bar''" example_ctor]
      l g e1 t example_registered_inv
    by simp
qed

theorem get_and_whenDefined_after_define_witness:
  "get example_env (snd (define_patched example_env init_registry ''X-Foo'' example_ctor None))
       ''x-foo'' = Inr (Some example_ctor)
   \<and> resolved_with
        (snd (whenDefined example_env
           (snd (define_patched example_env init_registry ''X-Foo'' example_ctor None)) ''x-foo''))
        (fst (whenDefined example_env
           (snd (define_patched example_env init_registry ''X-Foo'' example_ctor None)) ''x-foo''))
      = Some example_ctor"
proof -
  have ok: "fst (define_patched example_env init_registry ''X-Foo'' example_ctor None) = None"
    by (simp add: registry_defs Let_def)
  have l: "toLowerCase example_env ''X-Foo'' = ''x-foo''"
    by (simp add: example_env_def ascii_toLowerCase_def lower_char_def)
  show ?thesis
    using get_and_whenDefined_after_define [OF registry_inv_init ok] l by simp
qed

text \<open>
  The claim C9 as stated fails at two inputs. With \<^verbatim>\<open>extends\<close> supplied as the empty
  string the guard \<^verbatim>\<open>options && options.extends\<close> does not fire: \<^verbatim>\<open>define\<close> throws
  nothing and registers the tag. And for a name that the browser's registry holds
  and the module's tables do not (a class defined before the patch was installed),
  \<^verbatim>\<open>define\<close> throws the browser's "name already used" \<^verbatim>\<open>DOMException\<close> after it has
  written the tag into \<open>definitionsByTag\<close>.
\<close>

theorem define_patched_throws_counterexample:
  "fst (define_patched example_env init_registry ''x-foo'' example_ctor
          (Some \<lparr> extends = Some [] \<rparr>)) = None
   \<and> definitionsByTag (snd (define_patched example_env init_registry ''x-foo'' example_ctor
          (Some \<lparr> extends = Some [] \<rparr>))) ''x-foo'' = Some 0
   \<and> definitionsByTag (init_registry\<lparr> nativeRegistry := [''x-foo'' \<mapsto> NativeOther 0] \<rparr>) ''x-foo''
        = None
   \<and> fst (define_patched example_env
            (init_registry\<lparr> nativeRegistry := [''x-foo'' \<mapsto> NativeOther 0] \<rparr>)
            ''x-foo'' example_ctor None)
        = Some (DOMException (NativeNameAlreadyUsed ''x-foo''))
   \<and> definitionsByTag (snd (define_patched example_env
            (init_registry\<lparr> nativeRegistry := [''x-foo'' \<mapsto> NativeOther 0] \<rparr>)
            ''x-foo'' example_ctor None)) ''x-foo''
        = Some 0"
  by (simp add: registry_defs Let_def)

text \<open>
  Where the browser's \<^verbatim>\<open>get\<close> raises a \<^verbatim>\<open>SyntaxError\<close> for a name that is not valid,
  as the comment in \<^verbatim>\<open>define\<close> says it does, and lower-casing leaves every valid name
  as it is, a successful \<^verbatim>\<open>define(tagName, C)\<close> is followed by \<^verbatim>\<open>get(tagName)\<close> returning
  \<open>C\<close> and \<^verbatim>\<open>whenDefined(tagName)\<close> resolving with \<open>C\<close>, for the name as it was passed.
\<close>

lemma get_and_whenDefined_when_get_validates:
  assumes inv: "registry_inv s"
    and checks: "get_checks_name env"
    and lower: "\<And>t. valid_name env t \<Longrightarrow> toLowerCase env t = t"
    and ok: "fst (define_patched env s tagName c options) = None"
  shows "get env (snd (define_patched env s tagName c options)) tagName = Inr (Some c)
     \<and> resolved_with
          (snd (whenDefined env (snd (define_patched env s tagName c options)) tagName))
          (fst (whenDefined env (snd (define_patched env s tagName c options)) tagName))
        = Some c"
proof -
  have "valid_name env tagName"
    using ok checks
    by (cases "valid_name env tagName")
       (auto simp: define_patched_def nativeGet_def split: if_splits)
  then have "toLowerCase env tagName = tagName" by (rule lower)
  then show ?thesis using get_and_whenDefined_after_define [OF inv ok] by simp
qed

text \<open>
  C10. The code at \<^verbatim>\<open>define("X-Foo", C)\<close> on a freshly patched registry, in a browser
  whose \<^verbatim>\<open>get\<close> answers \<^verbatim>\<open>undefined\<close> for a name it does not hold: \<^verbatim>\<open>define\<close> raises no
  \<^verbatim>\<open>SyntaxError\<close> for the name, which is not a valid one, lower-cases it and registers
  \<^verbatim>\<open>x-foo\<close>; then \<^verbatim>\<open>get("X-Foo")\<close> is \<^verbatim>\<open>undefined\<close>, not \<open>C\<close>, and \<^verbatim>\<open>whenDefined("X-Foo")\<close>
  is rejected, not resolved with \<open>C\<close>. \<^verbatim>\<open>define\<close> and the registration function
  lower-case the name; \<^verbatim>\<open>get\<close> and \<^verbatim>\<open>whenDefined\<close> do not.
\<close>

theorem define_mixed_case_name_then_get:
  "fst (define_patched example_env init_registry ''X-Foo'' example_ctor None) = None
   \<and> definitionsByTag (snd (define_patched example_env init_registry ''X-Foo'' example_ctor None))
        ''x-foo'' = Some 0
   \<and> get example_env (snd (define_patched example_env init_registry ''X-Foo'' example_ctor None))
        ''X-Foo'' = Inr None
   \<and> fst (whenDefined example_env
        (snd (define_patched example_env init_registry ''X-Foo'' example_ctor None)) ''X-Foo'')
      = Rejected SyntaxError"
  by (simp add: registry_defs Let_def)



text \<open>
  The invariant holds of every state the module reaches: each step of \<^verbatim>\<open>define\<close>,
  \<^verbatim>\<open>whenDefined\<close> and the registration function keeps it, also when the call throws
  after it has changed the maps.
\<close>

lemma inv_fields:
  assumes inv: "registry_inv s"
    and e: "pivotCtorByTag s' = pivotCtorByTag s" "definitionsByTag s' = definitionsByTag s"
      "definitionForConstructor s' = definitionForConstructor s" "definitions s' = definitions s"
      "definitionsByClass s' = definitionsByClass s" "definedPromises s' = definedPromises s"
      "definedResolvers s' = definedResolvers s" "promises s' = promises s"
  shows "registry_inv s'"
  using inv unfolding registry_inv_def e .

lemma inv_same_tables:
  assumes st: "same_tables s s'" and inv: "registry_inv s"
  shows "registry_inv s'"
proof -
  have "pivotCtorByTag s' = pivotCtorByTag s" "definitionsByTag s' = definitionsByTag s"
    "definitionForConstructor s' = definitionForConstructor s" "definitions s' = definitions s"
    "definitionsByClass s' = definitionsByClass s" "definedPromises s' = definedPromises s"
    "definedResolvers s' = definedResolvers s" "promises s' = promises s"
    using st by (simp_all add: same_tables_def)
  with inv show ?thesis by (rule inv_fields)
qed

lemma inv_register_tables:
  assumes inv: "registry_inv s" and dc: "definitionForConstructor s c = Some d"
  shows "registry_inv (s\<lparr> definitionsByTag := (definitionsByTag s)(tag \<mapsto> d),
                           definitionsByClass := (definitionsByClass s)(c \<mapsto> d) \<rparr>)"
proof (rule registry_invI)
  fix t p
  assume "pivotCtorByTag (s\<lparr> definitionsByTag := (definitionsByTag s)(tag \<mapsto> d),
                           definitionsByClass := (definitionsByClass s)(c \<mapsto> d) \<rparr>) t = Some p"
  then show "definitionsByTag (s\<lparr> definitionsByTag := (definitionsByTag s)(tag \<mapsto> d),
                           definitionsByClass := (definitionsByClass s)(c \<mapsto> d) \<rparr>) t \<noteq> None"
    using invD_pivot [OF inv, of t p] by simp
next
  fix c' d'
  assume "definitionForConstructor (s\<lparr> definitionsByTag := (definitionsByTag s)(tag \<mapsto> d),
                           definitionsByClass := (definitionsByClass s)(c \<mapsto> d) \<rparr>) c' = Some d'"
  then show "d' < length (definitions (s\<lparr> definitionsByTag := (definitionsByTag s)(tag \<mapsto> d),
                           definitionsByClass := (definitionsByClass s)(c \<mapsto> d) \<rparr>))
     \<and> UserCtor (definitions (s\<lparr> definitionsByTag := (definitionsByTag s)(tag \<mapsto> d),
                           definitionsByClass := (definitionsByClass s)(c \<mapsto> d) \<rparr>) ! d') = c'"
    using invD_cached [OF inv, of c' d'] by simp
next
  fix c' d'
  assume "definitionsByClass (s\<lparr> definitionsByTag := (definitionsByTag s)(tag \<mapsto> d),
                           definitionsByClass := (definitionsByClass s)(c \<mapsto> d) \<rparr>) c' = Some d'"
  then show "definitionForConstructor (s\<lparr> definitionsByTag := (definitionsByTag s)(tag \<mapsto> d),
                           definitionsByClass := (definitionsByClass s)(c \<mapsto> d) \<rparr>) c' \<noteq> None"
    using invD_class [OF inv, of c' d'] dc by (cases "c' = c") simp_all
next
  fix t p
  assume "definedPromises (s\<lparr> definitionsByTag := (definitionsByTag s)(tag \<mapsto> d),
                           definitionsByClass := (definitionsByClass s)(c \<mapsto> d) \<rparr>) t = Some p"
  then show "definedResolvers (s\<lparr> definitionsByTag := (definitionsByTag s)(tag \<mapsto> d),
                           definitionsByClass := (definitionsByClass s)(c \<mapsto> d) \<rparr>) t = Some p
     \<and> p < length (promises (s\<lparr> definitionsByTag := (definitionsByTag s)(tag \<mapsto> d),
                           definitionsByClass := (definitionsByClass s)(c \<mapsto> d) \<rparr>))
     \<and> (definitionsByTag (s\<lparr> definitionsByTag := (definitionsByTag s)(tag \<mapsto> d),
                           definitionsByClass := (definitionsByClass s)(c \<mapsto> d) \<rparr>) t = None \<longrightarrow>
          promises (s\<lparr> definitionsByTag := (definitionsByTag s)(tag \<mapsto> d),
                           definitionsByClass := (definitionsByClass s)(c \<mapsto> d) \<rparr>) ! p = Pending)"
    using invD_promise [OF inv, of t p] by (cases "t = tag") simp_all
next
  fix t p
  assume "definedResolvers (s\<lparr> definitionsByTag := (definitionsByTag s)(tag \<mapsto> d),
                           definitionsByClass := (definitionsByClass s)(c \<mapsto> d) \<rparr>) t = Some p"
  then show "definedPromises (s\<lparr> definitionsByTag := (definitionsByTag s)(tag \<mapsto> d),
                           definitionsByClass := (definitionsByClass s)(c \<mapsto> d) \<rparr>) t = Some p"
    using invD_resolver [OF inv, of t p] by simp
next
  fix t t' p
  assume "definedPromises (s\<lparr> definitionsByTag := (definitionsByTag s)(tag \<mapsto> d),
                           definitionsByClass := (definitionsByClass s)(c \<mapsto> d) \<rparr>) t = Some p"
    "definedPromises (s\<lparr> definitionsByTag := (definitionsByTag s)(tag \<mapsto> d),
                           definitionsByClass := (definitionsByClass s)(c \<mapsto> d) \<rparr>) t' = Some p"
  then show "t = t'" using invD_inj [OF inv, of t p t'] by simp
qed


lemma inv_createPivotingClass:
  assumes inv: "registry_inv s" and t: "definitionsByTag s tag \<noteq> None"
  shows "registry_inv (snd (createPivotingClass s tag d))"
proof -
  define s' where "s' = snd (createPivotingClass s tag d)"
  have f: "definitionsByTag s' = definitionsByTag s"
    "definitionForConstructor s' = definitionForConstructor s" "definitions s' = definitions s"
    "definitionsByClass s' = definitionsByClass s" "definedPromises s' = definedPromises s"
    "definedResolvers s' = definedResolvers s" "promises s' = promises s"
    and pv: "\<And>t'. t' \<noteq> tag \<Longrightarrow> pivotCtorByTag s' t' = pivotCtorByTag s t'"
    by (simp_all add: s'_def createPivotingClass_def Let_def)
  have "registry_inv s'"
  proof (rule registry_invI)
    fix t' p assume a: "pivotCtorByTag s' t' = Some p"
    show "definitionsByTag s' t' \<noteq> None"
    proof (cases "t' = tag")
      case True
      then show ?thesis using t f by simp
    next
      case False
      then show ?thesis using a pv [OF False] invD_pivot [OF inv, of t' p] f by simp
    qed
  next
    fix c' d' assume "definitionForConstructor s' c' = Some d'"
    then show "d' < length (definitions s') \<and> UserCtor (definitions s' ! d') = c'"
      using invD_cached [OF inv, of c' d'] f by simp
  next
    fix c' d' assume "definitionsByClass s' c' = Some d'"
    then show "definitionForConstructor s' c' \<noteq> None"
      using invD_class [OF inv, of c' d'] f by simp
  next
    fix t' p assume "definedPromises s' t' = Some p"
    then show "definedResolvers s' t' = Some p \<and> p < length (promises s')
       \<and> (definitionsByTag s' t' = None \<longrightarrow> promises s' ! p = Pending)"
      using invD_promise [OF inv, of t' p] f by simp
  next
    fix t' p assume "definedResolvers s' t' = Some p"
    then show "definedPromises s' t' = Some p" using invD_resolver [OF inv, of t' p] f by simp
  next
    fix t1 t2 p assume "definedPromises s' t1 = Some p" "definedPromises s' t2 = Some p"
    then show "t1 = t2" using invD_inj [OF inv, of t1 p t2] f by simp
  qed
  then show ?thesis by (simp add: s'_def)
qed

lemma inv_nativeDefine:
  assumes inv: "registry_inv s"
  shows "registry_inv (snd (nativeDefine env s tag p))"
  using inv by (rule inv_fields) (simp_all add: nativeDefine_def)

lemma inv_set_PivotCtor:
  assumes inv: "registry_inv s"
  shows "registry_inv (set_PivotCtor s d p)"
proof -
  define s' where "s' = set_PivotCtor s d p"
  have f: "pivotCtorByTag s' = pivotCtorByTag s" "definitionsByTag s' = definitionsByTag s"
    "definitionForConstructor s' = definitionForConstructor s"
    "definitionsByClass s' = definitionsByClass s" "definedPromises s' = definedPromises s"
    "definedResolvers s' = definedResolvers s" "promises s' = promises s"
    "length (definitions s') = length (definitions s)"
    and uc: "\<And>i. i < length (definitions s) \<Longrightarrow>
       UserCtor (definitions s' ! i) = UserCtor (definitions s ! i)"
    by (simp_all add: s'_def set_PivotCtor_def lookup_def_def nth_list_update)
  have "registry_inv s'"
  proof (rule registry_invI)
    fix t' p' assume "pivotCtorByTag s' t' = Some p'"
    then show "definitionsByTag s' t' \<noteq> None" using invD_pivot [OF inv, of t' p'] f by simp
  next
    fix c' d' assume a: "definitionForConstructor s' c' = Some d'"
    then have "d' < length (definitions s) \<and> UserCtor (definitions s ! d') = c'"
      using invD_cached [OF inv, of c' d'] f by simp
    then show "d' < length (definitions s') \<and> UserCtor (definitions s' ! d') = c'"
      using f uc [of d'] by simp
  next
    fix c' d' assume "definitionsByClass s' c' = Some d'"
    then show "definitionForConstructor s' c' \<noteq> None"
      using invD_class [OF inv, of c' d'] f by simp
  next
    fix t' p' assume "definedPromises s' t' = Some p'"
    then show "definedResolvers s' t' = Some p' \<and> p' < length (promises s')
       \<and> (definitionsByTag s' t' = None \<longrightarrow> promises s' ! p' = Pending)"
      using invD_promise [OF inv, of t' p'] f by simp
  next
    fix t' p' assume "definedResolvers s' t' = Some p'"
    then show "definedPromises s' t' = Some p'" using invD_resolver [OF inv, of t' p'] f by simp
  next
    fix t1 t2 p' assume "definedPromises s' t1 = Some p'" "definedPromises s' t2 = Some p'"
    then show "t1 = t2" using invD_inj [OF inv, of t1 p' t2] f by simp
  qed
  then show ?thesis by (simp add: s'_def)
qed

lemma inv_resolve_promise:
  assumes inv: "registry_inv s" and r: "definedResolvers s tag = Some r"
    and t: "definitionsByTag s tag \<noteq> None"
  shows "registry_inv (resolve_promise s r c)"
proof -
  define s' where "s' = resolve_promise s r c"
  have f: "pivotCtorByTag s' = pivotCtorByTag s" "definitionsByTag s' = definitionsByTag s"
    "definitionForConstructor s' = definitionForConstructor s" "definitions s' = definitions s"
    "definitionsByClass s' = definitionsByClass s" "definedPromises s' = definedPromises s"
    "definedResolvers s' = definedResolvers s"
    "length (promises s') = length (promises s)"
    and pr: "\<And>i. i \<noteq> r \<Longrightarrow> promises s' ! i = promises s ! i"
    by (simp_all add: s'_def resolve_promise_def)
  have dp: "definedPromises s tag = Some r" using invD_resolver [OF inv r] .
  have "registry_inv s'"
  proof (rule registry_invI)
    fix t' p' assume "pivotCtorByTag s' t' = Some p'"
    then show "definitionsByTag s' t' \<noteq> None" using invD_pivot [OF inv, of t' p'] f by simp
  next
    fix c' d' assume "definitionForConstructor s' c' = Some d'"
    then show "d' < length (definitions s') \<and> UserCtor (definitions s' ! d') = c'"
      using invD_cached [OF inv, of c' d'] f by simp
  next
    fix c' d' assume "definitionsByClass s' c' = Some d'"
    then show "definitionForConstructor s' c' \<noteq> None"
      using invD_class [OF inv, of c' d'] f by simp
  next
    fix t' p' assume a: "definedPromises s' t' = Some p'"
    then have a': "definedPromises s t' = Some p'" using f by simp
    have b: "definedResolvers s t' = Some p'" "p' < length (promises s)"
      "definitionsByTag s t' = None \<longrightarrow> promises s ! p' = Pending"
      using invD_promise [OF inv a'] by simp_all
    have "definitionsByTag s' t' = None \<longrightarrow> promises s' ! p' = Pending"
    proof
      assume n: "definitionsByTag s' t' = None"
      then have "t' \<noteq> tag" using t f by auto
      then have "p' \<noteq> r" using invD_inj [OF inv a' , of tag] dp by auto
      then show "promises s' ! p' = Pending" using pr [of p'] b n f by simp
    qed
    then show "definedResolvers s' t' = Some p' \<and> p' < length (promises s')
       \<and> (definitionsByTag s' t' = None \<longrightarrow> promises s' ! p' = Pending)"
      using b f by simp
  next
    fix t' p' assume "definedResolvers s' t' = Some p'"
    then show "definedPromises s' t' = Some p'" using invD_resolver [OF inv, of t' p'] f by simp
  next
    fix t1 t2 p' assume "definedPromises s' t1 = Some p'" "definedPromises s' t2 = Some p'"
    then show "t1 = t2" using invD_inj [OF inv, of t1 p' t2] f by simp
  qed
  then show ?thesis by (simp add: s'_def)
qed

lemma inv_whenDefined_then:
  assumes inv: "registry_inv s"
  shows "registry_inv (snd (whenDefined_then s tagName))"
proof (cases "definedPromises s tagName = None \<and> definitionsByTag s tagName = None")
  case False
  then have "snd (whenDefined_then s tagName) = s"
    by (auto simp: whenDefined_then_def split: option.splits)
  then show ?thesis using inv by simp
next
  case True
  define s' where "s' = s\<lparr> promises := promises s @ [Pending],
                   definedPromises := (definedPromises s)(tagName \<mapsto> length (promises s)),
                   definedResolvers := (definedResolvers s)(tagName \<mapsto> length (promises s)) \<rparr>"
  have w: "snd (whenDefined_then s tagName) = s'"
    using True by (simp add: whenDefined_then_def Let_def s'_def)
  have nr: "definedResolvers s tagName = None"
  proof (cases "definedResolvers s tagName")
    case None then show ?thesis .
  next
    case (Some q)
    then show ?thesis using invD_resolver [OF inv Some] True by simp
  qed
  have "registry_inv s'"
  proof (rule registry_invI)
    fix t' p' assume "pivotCtorByTag s' t' = Some p'"
    then show "definitionsByTag s' t' \<noteq> None"
      using invD_pivot [OF inv, of t' p'] by (simp add: s'_def)
  next
    fix c' d' assume "definitionForConstructor s' c' = Some d'"
    then show "d' < length (definitions s') \<and> UserCtor (definitions s' ! d') = c'"
      using invD_cached [OF inv, of c' d'] by (simp add: s'_def)
  next
    fix c' d' assume "definitionsByClass s' c' = Some d'"
    then show "definitionForConstructor s' c' \<noteq> None"
      using invD_class [OF inv, of c' d'] by (simp add: s'_def)
  next
    fix t' p' assume a: "definedPromises s' t' = Some p'"
    show "definedResolvers s' t' = Some p' \<and> p' < length (promises s')
       \<and> (definitionsByTag s' t' = None \<longrightarrow> promises s' ! p' = Pending)"
    proof (cases "t' = tagName")
      case True
      then have "p' = length (promises s)" using a by (simp add: s'_def)
      then show ?thesis using True by (simp add: s'_def)
    next
      case False
      then have "definedPromises s t' = Some p'" using a by (simp add: s'_def)
      from invD_promise [OF inv this] show ?thesis using False by (simp add: s'_def nth_append)
    qed
  next
    fix t' p' assume a: "definedResolvers s' t' = Some p'"
    show "definedPromises s' t' = Some p'"
    proof (cases "t' = tagName")
      case True
      then show ?thesis using a by (simp add: s'_def)
    next
      case False
      then have "definedResolvers s t' = Some p'" using a by (simp add: s'_def)
      from invD_resolver [OF inv this] show ?thesis using False by (simp add: s'_def)
    qed
  next
    fix t1 t2 p' assume a: "definedPromises s' t1 = Some p'" "definedPromises s' t2 = Some p'"
    have old: "\<And>t. t \<noteq> tagName \<Longrightarrow> definedPromises s' t = Some p' \<Longrightarrow> p' < length (promises s)
        \<and> definedPromises s t = Some p'"
    proof -
      fix t assume "t \<noteq> tagName" "definedPromises s' t = Some p'"
      then have "definedPromises s t = Some p'" by (simp add: s'_def)
      with invD_promise [OF inv this] show "p' < length (promises s) \<and> definedPromises s t = Some p'"
        by simp
    qed
    have new: "\<And>t. t = tagName \<Longrightarrow> definedPromises s' t = Some p' \<Longrightarrow> p' = length (promises s)"
      by (simp add: s'_def)
    show "t1 = t2"
    proof (cases "t1 = tagName")
      case True
      show ?thesis
      proof (cases "t2 = tagName")
        case True
        with \<open>t1 = tagName\<close> show ?thesis by simp
      next
        case False
        then show ?thesis using old [OF False a(2)] new [OF True a(1)] by simp
      qed
    next
      case False
      show ?thesis
      proof (cases "t2 = tagName")
        case True
        then show ?thesis using old [OF False a(1)] new [OF True a(2)] by simp
      next
        case f2: False
        then show ?thesis
          using old [OF False a(1)] old [OF f2 a(2)] invD_inj [OF inv, of t1 p' t2] by simp
      qed
    qed
  qed
  then show ?thesis using w by simp
qed


lemma inv_define_register:
  assumes inv: "registry_inv s1" and dc: "definitionForConstructor s1 c = Some d"
  shows "registry_inv (snd (define_register env s1 tag c d))"
proof -
  let ?s2 = "s1\<lparr> definitionsByTag := (definitionsByTag s1)(tag \<mapsto> d),
                  definitionsByClass := (definitionsByClass s1)(c \<mapsto> d) \<rparr>"
  have i2: "registry_inv ?s2" using inv dc by (rule inv_register_tables)
  have t2: "definitionsByTag ?s2 tag \<noteq> None" by simp
  define r where "r = (case pivotCtorByTag ?s2 tag of
                 Some p \<Rightarrow> (None, p, ?s2)
               | None \<Rightarrow>
                   (let pc = createPivotingClass ?s2 tag d;
                        nd = nativeDefine env (snd pc) tag (fst pc)
                    in (fst nd, fst pc, snd nd)))"
  obtain e p s4 where r4: "r = (e, p, s4)" by (cases r)
  have i4: "registry_inv s4 \<and> definitionsByTag s4 tag \<noteq> None"
  proof (cases "pivotCtorByTag ?s2 tag")
    case None
    then have s4: "s4 = snd (nativeDefine env (snd (createPivotingClass ?s2 tag d)) tag
                              (fst (createPivotingClass ?s2 tag d)))"
      using r4 unfolding r_def by (auto simp: Let_def)
    have "registry_inv (snd (createPivotingClass ?s2 tag d))"
      using i2 t2 by (rule inv_createPivotingClass)
    then have "registry_inv s4" unfolding s4 by (rule inv_nativeDefine)
    moreover have "definitionsByTag s4 tag \<noteq> None"
      unfolding s4 by (simp add: nativeDefine_def createPivotingClass_def Let_def)
    ultimately show ?thesis by simp
  next
    case (Some p')
    then have "s4 = ?s2" using r4 unfolding r_def by simp
    then show ?thesis using i2 by simp
  qed
  have res: "define_register env s1 tag c d =
      (case r of
           (Some e, p, s4) \<Rightarrow> (Some e, s4)
         | (None, p, s4) \<Rightarrow>
             (case flush_awaiting env (set_PivotCtor s4 d p) tag d of
                (Some e, s6) \<Rightarrow> (Some e, s6)
              | (None, s6) \<Rightarrow>
                  (None, (case definedResolvers s6 tag of
                            None \<Rightarrow> s6
                          | Some resolver \<Rightarrow> resolve_promise s6 resolver c))))"
    unfolding r_def define_register_def Let_def by simp
  show ?thesis
  proof (cases e)
    case (Some x)
    then show ?thesis using res r4 i4 by simp
  next
    case None
    let ?s5 = "set_PivotCtor s4 d p"
    obtain e6 s6 where fl: "flush_awaiting env ?s5 tag d = (e6, s6)"
      by (cases "flush_awaiting env ?s5 tag d")
    have i5: "registry_inv ?s5" using i4 by (simp add: inv_set_PivotCtor)
    have t5: "definitionsByTag ?s5 tag \<noteq> None"
      using i4 set_PivotCtor_facts [of s4 d p] by simp
    have st: "same_tables ?s5 s6" using flush_awaiting_same_tables [of ?s5 env tag d] fl by simp
    have i6: "registry_inv s6" using st i5 by (rule inv_same_tables)
    have t6: "definitionsByTag s6 tag \<noteq> None" using st t5 by (simp add: same_tables_def)
    show ?thesis
    proof (cases e6)
      case (Some x)
      then show ?thesis using res r4 None fl i6 by simp
    next
      case e6n: None
      show ?thesis
      proof (cases "definedResolvers s6 tag")
        case None
        then show ?thesis using res r4 \<open>e = None\<close> fl e6n i6 by simp
      next
        case (Some rr)
        have "registry_inv (resolve_promise s6 rr c)" using i6 Some t6 by (rule inv_resolve_promise)
        then show ?thesis using res r4 \<open>e = None\<close> fl e6n Some by simp
      qed
    qed
  qed
qed

lemma inv_define_patched:
  assumes inv: "registry_inv s"
  shows "registry_inv (snd (define_patched env s tagName c options))"
proof (cases "getDefinitionForConstructor s c")
  case (Inl e)
  then show ?thesis using inv
    by (simp add: define_patched_def Let_def split: sum.splits)
next
  case (Inr ds)
  obtain d s1 where ds: "ds = (d, s1)" by (cases ds)
  have g: "getDefinitionForConstructor s c = Inr (d, s1)" using Inr ds by simp
  have i1: "registry_inv s1" using getDefinitionForConstructor_inv [OF inv g] by simp
  have dc: "definitionForConstructor s1 c = Some d"
    using getDefinitionForConstructor_tables [OF g] by simp
  have ir: "registry_inv (snd (define_register env s1 (toLowerCase env tagName) c d))"
    using i1 dc by (rule inv_define_register)
  show ?thesis using inv i1 ir g
    by (simp add: define_patched_def Let_def split: sum.splits)
qed

lemma inv_whenDefined:
  assumes inv: "registry_inv s"
  shows "registry_inv (snd (whenDefined env s tagName))"
  using inv inv_whenDefined_then [OF inv, of tagName] by (simp add: whenDefined_def)

lemma inv_registerPivot:
  assumes inv: "registry_inv s"
  shows "registry_inv (snd (registerPivot env s tagName c))"
proof (cases "pivotCtorByTag s (toLowerCase env tagName)")
  case (Some p)
  then show ?thesis using inv by (simp add: registerPivot_def Let_def)
next
  case None
  show ?thesis
  proof (cases "getDefinitionForConstructor s c")
    case (Inl e)
    then show ?thesis using inv None by (simp add: registerPivot_def Let_def)
  next
    case (Inr ds)
    obtain d s1 where ds: "ds = (d, s1)" by (cases ds)
    have g: "getDefinitionForConstructor s c = Inr (d, s1)" using Inr ds by simp
    have i1: "registry_inv s1" using getDefinitionForConstructor_inv [OF inv g] by simp
    have dc: "definitionForConstructor s1 c = Some d"
      using getDefinitionForConstructor_tables [OF g] by simp
    let ?tag = "toLowerCase env tagName"
    let ?pc = "createPivotingClass s1 ?tag d"
    let ?s2 = "s1\<lparr> definitionsByTag := (definitionsByTag s1)(?tag \<mapsto> d),
                    definitionsByClass := (definitionsByClass s1)(c \<mapsto> d) \<rparr>"
    let ?s3 = "(snd ?pc)\<lparr> definitionsByTag := (definitionsByTag (snd ?pc))(?tag \<mapsto> d),
                           definitionsByClass := (definitionsByClass (snd ?pc))(c \<mapsto> d) \<rparr>"
    have i2: "registry_inv ?s2" using i1 dc by (rule inv_register_tables)
    have "registry_inv (snd (createPivotingClass ?s2 ?tag d))"
      using i2 by (rule inv_createPivotingClass) simp
    moreover have "snd (createPivotingClass ?s2 ?tag d) = ?s3"
      by (simp add: createPivotingClass_def lookup_def_def Let_def)
    ultimately have i3: "registry_inv ?s3" by simp
    have "registry_inv (snd (nativeDefine env ?s3 ?tag (fst ?pc)))"
      using i3 by (rule inv_nativeDefine)
    then show ?thesis using None g
      by (simp add: registerPivot_def Let_def split: option.splits)
  qed
qed

lemma reachable_inv: "reachable env s \<Longrightarrow> registry_inv s"
proof (induction rule: reachable.induct)
  case reach_init
  show ?case by (rule registry_inv_init)
next
  case (reach_define s tagName c options)
  then show ?case by (simp add: inv_define_patched)
next
  case (reach_whenDefined s tagName)
  then show ?case by (simp add: inv_whenDefined)
next
  case (reach_registerPivot s tagName c)
  then show ?case by (simp add: inv_registerPivot)
qed


section \<open>Properties of the compiled templates\<close>

lemma fragment_or_hoist_truthy:
  "truthy (fst (fragment_or_hoist n h m))
   \<and> fragment (snd (fragment_or_hoist n h m)) n = fst (fragment_or_hoist n h m)"
  by (simp add: fragment_or_hoist_def hoist_def Let_def)

lemma fragment_or_hoist_cached:
  "truthy (fragment m n) \<Longrightarrow> fragment_or_hoist n h m = (fragment m n, m)"
  by (simp add: fragment_or_hoist_def)

lemma fragment_or_hoist_instances:
  "instances (snd (fragment_or_hoist n h m)) =
     (if truthy (fragment m n) then instances m else instances m @ [h])"
  by (simp add: fragment_or_hoist_def hoist_def Let_def)

lemma fragment_or_hoist_idem:
  "fragment_or_hoist n h (snd (fragment_or_hoist n h m))
     = (fst (fragment_or_hoist n h m), snd (fragment_or_hoist n h m))"
  using fragment_or_hoist_truthy [of n h m]
    fragment_or_hoist_cached [of "snd (fragment_or_hoist n h m)" n h]
  by simp

lemma tmpl_readonly_statics:
  "concat (map statics (fst (tmpl_readonly c m))) = [(IntKey 1, fragment (snd (tmpl_readonly c m)) 1)]
   \<and> truthy (fragment (snd (tmpl_readonly c m)) 1)"
  using fragment_or_hoist_truthy [of 1 hoisted1_readonly m]
  by (simp add: tmpl_readonly_def Let_def api_static_fragment_def api_element_def)

lemma tmpl_readonly_cached:
  "truthy (fragment m 1) \<Longrightarrow> snd (tmpl_readonly c m) = m"
  by (simp add: tmpl_readonly_def Let_def fragment_or_hoist_cached)

lemma render_each_readonly_cached:
  "truthy (fragment m 1) \<Longrightarrow>
     snd (render_each tmpl_readonly cs m) = m
     \<and> (\<forall>vs \<in> set (fst (render_each tmpl_readonly cs m)).
           concat (map statics vs) = [(IntKey 1, fragment m 1)])"
proof (induction cs)
  case Nil
  show ?case by simp
next
  case (Cons c cs)
  have m: "snd (tmpl_readonly c m) = m" using Cons.prems by (rule tmpl_readonly_cached)
  have st: "concat (map statics (fst (tmpl_readonly c m))) = [(IntKey 1, fragment m 1)]"
    using tmpl_readonly_statics [of c m] m by simp
  show ?case using Cons.IH [OF Cons.prems] m st by (simp add: Let_def)
qed

lemma render_each_length: "length (fst (render_each tmpl cs m)) = length cs"
  by (induction cs arbitrary: m) (simp_all add: Let_def)

text \<open>
  C2. Over any number of calls of the render function, with any component states
  and from any module state: the hoisted fragment is constructed at most once, and
  every call returns, under key 1, the one instance that \<^verbatim>\<open>$fragment1\<close> holds at the
  end, the same object by identity in every call. From the state of a freshly
  loaded module a first call constructs it (the list of constructed fragments is
  then exactly that one fragment, object 0). The expression
  \<^verbatim>\<open>$fragmentN || ($fragmentN = $hoistedN())\<close> is idempotent for every variable and
  every hoisted markup: evaluated again in the state it left, it returns the same
  value and leaves the state as it is.
\<close>

theorem hoisted_fragment_constructed_once:
  "length (fst (render_each tmpl_readonly cmps m0)) = length cmps
   \<and> length (instances (snd (render_each tmpl_readonly cmps m0))) \<le> Suc (length (instances m0))
   \<and> (\<forall>vs \<in> set (fst (render_each tmpl_readonly cmps m0)).
         concat (map statics vs)
           = [(IntKey 1, fragment (snd (render_each tmpl_readonly cmps m0)) 1)])
   \<and> (cmps \<noteq> [] \<longrightarrow>
         instances (snd (render_each tmpl_readonly cmps init_module)) = [hoisted1_readonly]
         \<and> fragment (snd (render_each tmpl_readonly cmps init_module)) 1 = JObj 0)
   \<and> fragment_or_hoist n h (snd (fragment_or_hoist n h m))
         = (fst (fragment_or_hoist n h m), snd (fragment_or_hoist n h m))"
proof -
  have gen: "\<And>m0. length (instances (snd (render_each tmpl_readonly cmps m0))) \<le> Suc (length (instances m0))
      \<and> (\<forall>vs \<in> set (fst (render_each tmpl_readonly cmps m0)).
         concat (map statics vs)
           = [(IntKey 1, fragment (snd (render_each tmpl_readonly cmps m0)) 1)])
      \<and> (cmps \<noteq> [] \<longrightarrow> snd (render_each tmpl_readonly cmps m0) = snd (tmpl_readonly (hd cmps) m0))"
  proof -
    fix m0
    show "length (instances (snd (render_each tmpl_readonly cmps m0))) \<le> Suc (length (instances m0))
      \<and> (\<forall>vs \<in> set (fst (render_each tmpl_readonly cmps m0)).
         concat (map statics vs)
           = [(IntKey 1, fragment (snd (render_each tmpl_readonly cmps m0)) 1)])
      \<and> (cmps \<noteq> [] \<longrightarrow> snd (render_each tmpl_readonly cmps m0) = snd (tmpl_readonly (hd cmps) m0))"
    proof (cases cmps)
      case Nil
      then show ?thesis by simp
    next
      case (Cons c cs)
      let ?m1 = "snd (tmpl_readonly c m0)"
      have t: "truthy (fragment ?m1 1)"
        and st: "concat (map statics (fst (tmpl_readonly c m0))) = [(IntKey 1, fragment ?m1 1)]"
        using tmpl_readonly_statics [of c m0] by simp_all
      have rest: "snd (render_each tmpl_readonly cs ?m1) = ?m1"
        "\<forall>vs \<in> set (fst (render_each tmpl_readonly cs ?m1)).
           concat (map statics vs) = [(IntKey 1, fragment ?m1 1)]"
        using render_each_readonly_cached [OF t, of cs] by simp_all
      have len: "length (instances ?m1) \<le> Suc (length (instances m0))"
        by (simp add: tmpl_readonly_def Let_def fragment_or_hoist_instances)
      show ?thesis using Cons rest st len by (simp add: Let_def)
    qed
  qed
  have init: "cmps \<noteq> [] \<longrightarrow>
         instances (snd (render_each tmpl_readonly cmps init_module)) = [hoisted1_readonly]
         \<and> fragment (snd (render_each tmpl_readonly cmps init_module)) 1 = JObj 0"
    using gen [of init_module]
    by (simp add: tmpl_readonly_def Let_def fragment_or_hoist_def hoist_def init_module_def)
  show ?thesis
    using gen [of m0] init render_each_length [of tmpl_readonly cmps m0]
      fragment_or_hoist_idem [of n h m]
    by simp
qed

lemmas template_defs =
  tmpl_readonly_def fragment_or_hoist_def hoist_def init_module_def
  api_static_fragment_def api_element_def api_text_def api_set_owner_def api_comment_def
  no_data_def example_components_def hoisted1_readonly_def

theorem hoisted_fragment_constructed_once_witness:
  "map (\<lambda>vs. concat (map statics vs)) (fst (render_each tmpl_readonly example_components init_module))
     = [[(IntKey 1, JObj 0)], [(IntKey 1, JObj 0)], [(IntKey 1, JObj 0)]]
   \<and> instances (snd (render_each tmpl_readonly example_components init_module))
     = [hoisted1_readonly]"
proof -
  have ne: "example_components \<noteq> []" by (simp add: example_components_def)
  have l: "length (fst (render_each tmpl_readonly example_components init_module)) = 3"
    using hoisted_fragment_constructed_once [of example_components init_module]
    by (simp add: example_components_def)
  have "\<forall>vs \<in> set (fst (render_each tmpl_readonly example_components init_module)).
         concat (map statics vs) = [(IntKey 1, JObj 0)]"
    using hoisted_fragment_constructed_once [of example_components init_module] ne by simp
  then have "map (\<lambda>vs. concat (map statics vs))
        (fst (render_each tmpl_readonly example_components init_module))
      = replicate (length (fst (render_each tmpl_readonly example_components init_module)))
          [(IntKey 1, JObj 0)]"
    by (simp add: map_replicate_const [symmetric] cong: map_cong)
  then show ?thesis
    using l hoisted_fragment_constructed_once [of example_components init_module] ne
    by (simp add: numeral_3_eq_3)
qed


lemma tmpl_readonly_attrs:
  "attr_values ''readonly'' (fst (tmpl_readonly c m))
     = [if truthy (getReadOnly c) then JStr [] else JNull]
   \<and> attr_values ''disabled'' (fst (tmpl_readonly c m)) = [JStr []]
   \<and> attr_values ''title'' (fst (tmpl_readonly c m)) = [JStr ''foo'']"
  by (simp add: tmpl_readonly_def Let_def api_static_fragment_def api_element_def no_data_def)

text \<open>
  C6. In every call of the render function the input element has the attribute
  \<^verbatim>\<open>disabled\<close> with the literal value \<^verbatim>\<open>""\<close> and \<^verbatim>\<open>title\<close> with the literal value
  \<^verbatim>\<open>"foo"\<close>, whatever the component state; the value of \<^verbatim>\<open>readonly\<close> is
  \<^verbatim>\<open>$cmp.getReadOnly ? "" : null\<close> for the component state of that very call, in a
  sequence of calls with changing component states.
\<close>

theorem readonly_evaluated_per_render:
  "map (attr_values ''readonly'') (fst (render_each tmpl_readonly cmps m0))
     = map (\<lambda>c. [if truthy (getReadOnly c) then JStr [] else JNull]) cmps
   \<and> map (attr_values ''disabled'') (fst (render_each tmpl_readonly cmps m0))
     = map (\<lambda>c. [JStr []]) cmps
   \<and> map (attr_values ''title'') (fst (render_each tmpl_readonly cmps m0))
     = map (\<lambda>c. [JStr ''foo'']) cmps"
proof (induction cmps arbitrary: m0)
  case Nil
  show ?case by simp
next
  case (Cons c cs)
  show ?case
    using Cons.IH [of "snd (tmpl_readonly c m0)"] tmpl_readonly_attrs [of c m0]
    by (simp add: Let_def)
qed

theorem readonly_evaluated_per_render_witness:
  "map (attr_values ''readonly'') (fst (render_each tmpl_readonly example_components init_module))
     = [[JStr []], [JNull], [JStr []]]
   \<and> map (attr_values ''disabled'') (fst (render_each tmpl_readonly example_components init_module))
     = [[JStr []], [JStr []], [JStr []]]
   \<and> map (attr_values ''title'') (fst (render_each tmpl_readonly example_components init_module))
     = [[JStr ''foo''], [JStr ''foo''], [JStr ''foo'']]"
  using readonly_evaluated_per_render [of example_components init_module]
  by (simp add: example_components_def)

lemma concat_map_Nil: "concat (map (\<lambda>x. []) xs) = []"
  by (induction xs) simp_all

lemma statics_iterator:
  "concat (map statics (api_iterator xs f))
     = concat (map (\<lambda>x. concat (map statics (child_nodes (f x)))) xs)"
  by (induction xs) (simp_all add: api_iterator_def)

lemma tmpl_siblings_statics:
  "concat (map statics (fst (tmpl_siblings c m)))
     = [(IntKey 2, fst (fragment_or_hoist 1 hoisted1_siblings m)),
        (IntKey 8, fst (fragment_or_hoist 2 hoisted2_siblings
                          (snd (fragment_or_hoist 1 hoisted1_siblings m)))),
        (IntKey 11, fst (fragment_or_hoist 3 hoisted3_siblings
                          (snd (fragment_or_hoist 2 hoisted2_siblings
                             (snd (fragment_or_hoist 1 hoisted1_siblings m))))))]"
  by (simp add: tmpl_siblings_def Let_def api_flatten_def stc2_siblings_def
      api_element_def api_static_fragment_def api_text_def statics_iterator concat_map_Nil
      del: concat_eq_Nil_conv)

lemma tmpl_siblings_cached:
  assumes "truthy (fragment m 1)" "truthy (fragment m 2)" "truthy (fragment m 3)"
  shows "snd (tmpl_siblings c m) = m
     \<and> concat (map statics (fst (tmpl_siblings c m)))
         = [(IntKey 2, fragment m 1), (IntKey 8, fragment m 2), (IntKey 11, fragment m 3)]"
proof -
  have s: "snd (tmpl_siblings c m) = m"
    using assms by (simp add: tmpl_siblings_def Let_def fragment_or_hoist_def)
  show ?thesis using s tmpl_siblings_statics [of c m] assms
    by (simp add: fragment_or_hoist_def)
qed

lemma render_each_siblings_cached:
  assumes "truthy (fragment m 1)" "truthy (fragment m 2)" "truthy (fragment m 3)"
  shows "snd (render_each tmpl_siblings cs m) = m
     \<and> (\<forall>vs \<in> set (fst (render_each tmpl_siblings cs m)).
           concat (map statics vs)
             = [(IntKey 2, fragment m 1), (IntKey 8, fragment m 2), (IntKey 11, fragment m 3)])"
proof (induction cs)
  case Nil
  show ?case by simp
next
  case (Cons c cs)
  show ?case using Cons.IH tmpl_siblings_cached [OF assms, of c] by (simp add: Let_def)
qed

lemma tmpl_siblings_init:
  "snd (tmpl_siblings c init_module)
     = \<lparr> fragment = (\<lambda>n. JUndefined)(1 := JObj 0, 2 := JObj 1, 3 := JObj 2),
         instances = [hoisted1_siblings, hoisted2_siblings, hoisted3_siblings] \<rparr>"
  by (simp add: tmpl_siblings_def Let_def fragment_or_hoist_def hoist_def init_module_def
      numeral_2_eq_2 [symmetric])

text \<open>
  C7. The two static paragraphs \<^verbatim>\<open><p>Last child</p>\<close> have the same markup and
  declarations of their own (\<^verbatim>\<open>$hoisted1\<close> with \<^verbatim>\<open>$fragment1\<close>, \<^verbatim>\<open>$hoisted2\<close> with
  \<^verbatim>\<open>$fragment2\<close>): rendering from a freshly loaded module, any number of times,
  constructs one fragment for each declaration, and the fragment under key 2 (first
  section) and the fragment under key 8 (third section) are two objects, never one
  shared object, in every call.
\<close>

theorem identical_static_siblings_hoisted_apart:
  "hoisted1_siblings = hoisted2_siblings
   \<and> (cmps \<noteq> [] \<longrightarrow>
        instances (snd (render_each tmpl_siblings cmps init_module))
          = [hoisted1_siblings, hoisted2_siblings, hoisted3_siblings]
        \<and> fragment (snd (render_each tmpl_siblings cmps init_module)) 1 = JObj 0
        \<and> fragment (snd (render_each tmpl_siblings cmps init_module)) 2 = JObj 1
        \<and> (\<forall>vs \<in> set (fst (render_each tmpl_siblings cmps init_module)).
              concat (map statics vs)
                = [(IntKey 2, JObj 0), (IntKey 8, JObj 1), (IntKey 11, JObj 2)]))"
proof (intro conjI impI)
  show "hoisted1_siblings = hoisted2_siblings"
    by (simp add: hoisted1_siblings_def hoisted2_siblings_def)
next
  assume ne: "cmps \<noteq> []"
  then obtain c cs where cmps: "cmps = c # cs" by (cases cmps) simp_all
  let ?m1 = "snd (tmpl_siblings c init_module)"
  have m1: "?m1 = \<lparr> fragment = (\<lambda>n. JUndefined)(1 := JObj 0, 2 := JObj 1, 3 := JObj 2),
         instances = [hoisted1_siblings, hoisted2_siblings, hoisted3_siblings] \<rparr>"
    by (rule tmpl_siblings_init)
  have t: "truthy (fragment ?m1 1)" "truthy (fragment ?m1 2)" "truthy (fragment ?m1 3)"
    by (simp_all add: m1)
  have first: "concat (map statics (fst (tmpl_siblings c init_module)))
      = [(IntKey 2, JObj 0), (IntKey 8, JObj 1), (IntKey 11, JObj 2)]"
    by (simp add: tmpl_siblings_statics fragment_or_hoist_def hoist_def init_module_def Let_def
        numeral_2_eq_2 [symmetric])
  have rest: "snd (render_each tmpl_siblings cs ?m1) = ?m1"
    "\<forall>vs \<in> set (fst (render_each tmpl_siblings cs ?m1)).
           concat (map statics vs)
             = [(IntKey 2, fragment ?m1 1), (IntKey 8, fragment ?m1 2), (IntKey 11, fragment ?m1 3)]"
    using render_each_siblings_cached [OF t, of cs] by simp_all
  have f: "fragment ?m1 1 = JObj 0" "fragment ?m1 2 = JObj 1" "fragment ?m1 3 = JObj 2"
    "instances ?m1 = [hoisted1_siblings, hoisted2_siblings, hoisted3_siblings]"
    by (simp_all add: m1)
  show "instances (snd (render_each tmpl_siblings cmps init_module))
          = [hoisted1_siblings, hoisted2_siblings, hoisted3_siblings]"
    using cmps rest(1) f by (simp add: Let_def)
  show "fragment (snd (render_each tmpl_siblings cmps init_module)) 1 = JObj 0"
    using cmps rest(1) f by (simp add: Let_def)
  show "fragment (snd (render_each tmpl_siblings cmps init_module)) 2 = JObj 1"
    using cmps rest(1) f by (simp add: Let_def)
  show "\<forall>vs \<in> set (fst (render_each tmpl_siblings cmps init_module)).
              concat (map statics vs)
                = [(IntKey 2, JObj 0), (IntKey 8, JObj 1), (IntKey 11, JObj 2)]"
    using cmps rest(2) first f by (simp add: Let_def)
qed

theorem identical_static_siblings_hoisted_apart_witness:
  "instances (snd (render_each tmpl_siblings example_components init_module))
     = [hoisted1_siblings, hoisted2_siblings, hoisted3_siblings]
   \<and> fragment (snd (render_each tmpl_siblings example_components init_module)) 1 = JObj 0
   \<and> fragment (snd (render_each tmpl_siblings example_components init_module)) 2 = JObj 1
   \<and> map (\<lambda>vs. concat (map statics vs))
        (fst (render_each tmpl_siblings example_components init_module))
     = replicate 3 [(IntKey 2, JObj 0), (IntKey 8, JObj 1), (IntKey 11, JObj 2)]"
proof -
  have ne: "example_components \<noteq> []" by (simp add: example_components_def)
  have l: "length (fst (render_each tmpl_siblings example_components init_module)) = 3"
    by (simp add: example_components_def Let_def)
  note th = identical_static_siblings_hoisted_apart [of example_components]
  have "\<forall>vs \<in> set (fst (render_each tmpl_siblings example_components init_module)).
         concat (map statics vs) = [(IntKey 2, JObj 0), (IntKey 8, JObj 1), (IntKey 11, JObj 2)]"
    using th ne by simp
  then have "map (\<lambda>vs. concat (map statics vs))
        (fst (render_each tmpl_siblings example_components init_module))
      = replicate (length (fst (render_each tmpl_siblings example_components init_module)))
          [(IntKey 2, JObj 0), (IntKey 8, JObj 1), (IntKey 11, JObj 2)]"
    by (simp add: map_replicate_const [symmetric] cong: map_cong)
  then show ?thesis using l th ne by simp
qed


lemma keys_iterator:
  "concat (map keys_of (api_iterator xs f))
     = concat (map (\<lambda>x. concat (map keys_of (child_nodes (f x)))) xs)"
  by (induction xs) (simp_all add: api_iterator_def)

lemma tmpl_siblings_keys:
  "concat (map keys_of (fst (tmpl_siblings c m)))
     = [IntKey 0, IntKey 2, IntKey 3]
       @ (if truthy (isTrue c)
          then concat (map (\<lambda>item. [api_key 4 (item_id item), api_key 5 (item_id item)]) (items c))
          else [])
       @ [IntKey 6, IntKey 8]
       @ map (\<lambda>item. api_key 9 (item_id item)) (items c)
       @ [IntKey 11]"
proof -
  have m: "concat (map (\<lambda>x. [api_key 9 (item_id x)]) (items c))
      = map (\<lambda>item. api_key 9 (item_id item)) (items c)"
    by (induction "items c") simp_all
  show ?thesis
    by (simp add: tmpl_siblings_def Let_def api_flatten_def stc2_siblings_def
      stc0_siblings_def stc1_siblings_def stc3_siblings_def no_data_def
      api_element_def api_static_fragment_def api_text_def keys_iterator concat_map_Nil m
      del: concat_eq_Nil_conv)
qed

lemma pair_keys_set:
  "set (concat (map (\<lambda>item. [api_key 4 (item_id item), api_key 5 (item_id item)]) xs))
     = (\<lambda>item. PairKey 4 (item_id item)) ` set xs \<union> (\<lambda>item. PairKey 5 (item_id item)) ` set xs"
  by (induction xs) (auto simp: api_key_def)

lemma pair_keys_distinct:
  "distinct (map item_id xs) \<Longrightarrow>
     distinct (concat (map (\<lambda>item. [api_key 4 (item_id item), api_key 5 (item_id item)]) xs))"
proof (induction xs)
  case Nil
  show ?case by simp
next
  case (Cons x xs)
  have a: "item_id x \<notin> item_id ` set xs" and d: "distinct (map item_id xs)"
    using Cons.prems by simp_all
  have "api_key 4 (item_id x) \<notin> set (concat (map (\<lambda>item. [api_key 4 (item_id item), api_key 5 (item_id item)]) xs))"
    "api_key 5 (item_id x) \<notin> set (concat (map (\<lambda>item. [api_key 4 (item_id item), api_key 5 (item_id item)]) xs))"
    using a unfolding pair_keys_set by (auto simp: api_key_def)
  then show ?case using Cons.IH [OF d] by (simp add: api_key_def)
qed

lemma nine_keys_distinct:
  "distinct (map item_id xs) \<Longrightarrow> distinct (map (\<lambda>item. api_key 9 (item_id item)) xs)"
  by (induction xs) (auto simp: api_key_def)

text \<open>
  C3. For items with pairwise distinct identities \<^verbatim>\<open>item.id\<close>, all keys of the
  rendered tree are pairwise distinct: the keys \<^verbatim>\<open>api_key(4, item.id)\<close> and
  \<^verbatim>\<open>api_key(5, item.id)\<close> of the two paragraphs of every item, the keys
  \<^verbatim>\<open>api_key(9, item.id)\<close> of the third section, and the integer keys of the fixed
  nodes. Keys at the two sibling positions 4 and 5 differ whatever identities are
  given, also for the same identity at both; keys at one position differ for
  different identities.
\<close>

theorem iteration_keys_distinct:
  assumes "distinct (map item_id (items cmp))"
  shows "distinct (concat (map keys_of (fst (tmpl_siblings cmp m))))
     \<and> (\<forall>x y. api_key 4 x \<noteq> api_key 5 y)
     \<and> (\<forall>p x y. x \<noteq> y \<longrightarrow> api_key p x \<noteq> api_key p y)"
proof -
  have d1: "distinct (concat (map (\<lambda>item. [api_key 4 (item_id item), api_key 5 (item_id item)]) (items cmp)))"
    using assms by (rule pair_keys_distinct)
  have d2: "distinct (map (\<lambda>item. api_key 9 (item_id item)) (items cmp))"
    using assms by (rule nine_keys_distinct)
  have "distinct (concat (map keys_of (fst (tmpl_siblings cmp m))))"
    unfolding tmpl_siblings_keys using d1 d2
    by (auto simp: pair_keys_set api_key_def)
  then show ?thesis by (simp add: api_key_def)
qed

theorem iteration_keys_distinct_witness:
  "concat (map keys_of (fst (tmpl_siblings example_list_component init_module)))
     = [IntKey 0, IntKey 2, IntKey 3,
        PairKey 4 (JNum 7), PairKey 5 (JNum 7), PairKey 4 (JStr ''a''), PairKey 5 (JStr ''a''),
        IntKey 6, IntKey 8, PairKey 9 (JNum 7), PairKey 9 (JStr ''a''), IntKey 11]
   \<and> distinct (concat (map keys_of (fst (tmpl_siblings example_list_component init_module))))
   \<and> api_key 4 (JNum 7) \<noteq> api_key 4 (JStr ''a'')"
proof -
  have d: "distinct (map item_id (items example_list_component))"
    by (simp add: example_list_component_def)
  have k: "concat (map keys_of (fst (tmpl_siblings example_list_component init_module)))
     = [IntKey 0, IntKey 2, IntKey 3,
        PairKey 4 (JNum 7), PairKey 5 (JNum 7), PairKey 4 (JStr ''a''), PairKey 5 (JStr ''a''),
        IntKey 6, IntKey 8, PairKey 9 (JNum 7), PairKey 9 (JStr ''a''), IntKey 11]"
    by (simp add: tmpl_siblings_keys example_list_component_def api_key_def)
  have n: "JNum 7 \<noteq> JStr ''a''" by simp
  show ?thesis
    using iteration_keys_distinct [OF d, of init_module] k n by blast
qed


text \<open>
  C5. For the slot \<^verbatim>\<open>test\<close> with hoisted default content: with no content for the slot
  (the slot set is empty, has no entry for the name, or has the empty list) the slot
  holds exactly the default content, the static fragment with key \<^verbatim>\<open>@test:3\<close>; with
  non-empty content for the slot it holds exactly that content and nothing of the
  default. The declared slot names are \<^verbatim>\<open>tmpl.slots = ["test"]\<close>. The same holds of
  the fixture with the unnamed slot, whose name is the empty string and whose
  default content is the element built at load time.
\<close>

theorem slot_default_fallback:
  "(slotset ''test'' = None \<or> slotset ''test'' = Some [] \<longrightarrow>
      fst (tmpl_slot_test slotset m)
        = [VElement ''section'' stc0_slot_test
             [VSlot ''test'' stc1_slot_test
                [VStaticFragment (fragment (snd (tmpl_slot_test slotset m)) 1)
                   (StrKey ''@test:3'')]]])
   \<and> (supplied \<noteq> [] \<and> slotset ''test'' = Some supplied \<longrightarrow>
      fst (tmpl_slot_test slotset m)
        = [VElement ''section'' stc0_slot_test [VSlot ''test'' stc1_slot_test supplied]])
   \<and> fst (tmpl_slot_test Map.empty init_module)
        = [VElement ''section'' stc0_slot_test
             [VSlot ''test'' stc1_slot_test [VStaticFragment (JObj 0) (StrKey ''@test:3'')]]]
   \<and> instances (snd (tmpl_slot_test Map.empty init_module)) = [hoisted1_slot_test]
   \<and> slots_slot_test = [''test'']
   \<and> (slotset [] = None \<or> slotset [] = Some [] \<longrightarrow>
      tmpl_slot_definition slotset
        = [VElement ''section'' stc0_slot_definition
             [VSlot [] stc1_slot_definition [VSetOwner hoisted1_slot_definition]]])
   \<and> (supplied \<noteq> [] \<and> slotset [] = Some supplied \<longrightarrow>
      tmpl_slot_definition slotset
        = [VElement ''section'' stc0_slot_definition [VSlot [] stc1_slot_definition supplied]])
   \<and> slots_slot_definition = [[]]"
proof -
  have f: "fragment (snd (fragment_or_hoist 1 hoisted1_slot_test m)) 1
      = fst (fragment_or_hoist 1 hoisted1_slot_test m)"
    by (simp add: fragment_or_hoist_def hoist_def Let_def)
  show ?thesis
    using f
    by (auto simp: tmpl_slot_test_def tmpl_slot_definition_def api_slot_def api_element_def
        api_static_fragment_def api_set_owner_def Let_def slots_slot_test_def
        slots_slot_definition_def fragment_or_hoist_def hoist_def init_module_def)
qed

theorem slot_default_fallback_witness:
  "fst (tmpl_slot_test Map.empty init_module)
        = [VElement ''section'' stc0_slot_test
             [VSlot ''test'' stc1_slot_test [VStaticFragment (JObj 0) (StrKey ''@test:3'')]]]
   \<and> fst (tmpl_slot_test [''test'' \<mapsto> [VText ''mine'']] init_module)
        = [VElement ''section'' stc0_slot_test [VSlot ''test'' stc1_slot_test [VText ''mine'']]]
   \<and> tmpl_slot_definition Map.empty
        = [VElement ''section'' stc0_slot_definition
             [VSlot [] stc1_slot_definition [VSetOwner hoisted1_slot_definition]]]
   \<and> tmpl_slot_definition [[] \<mapsto> [VText ''mine'']]
        = [VElement ''section'' stc0_slot_definition
             [VSlot [] stc1_slot_definition [VText ''mine'']]]"
  using slot_default_fallback [of Map.empty init_module "[VText ''mine'']"]
    slot_default_fallback [of "[''test'' \<mapsto> [VText ''mine'']]" init_module "[VText ''mine'']"]
    slot_default_fallback [of "[[] \<mapsto> [VText ''mine'']]" init_module "[VText ''mine'']"]
  by simp

text \<open>
  The attribute text of the scenario, read as the spec describes, gives the three
  triples in the order they were written.
\<close>

lemma parse_style_attribute_scenario:
  "parse_style_attribute ''background:blue!important;color:red;opacity:0.5!important''
     = [(''background'', ''blue'', True), (''color'', ''red'', False), (''opacity'', ''0.5'', True)]"
  by (simp add: parse_style_attribute_def parse_declaration_def strip_important_def Let_def)

lemma split_on_notin: "c \<notin> set xs \<Longrightarrow> split_on c xs = [xs]"
  by (induction xs) auto

lemma split_on_append:
  "c \<notin> set xs \<Longrightarrow> split_on c (xs @ c # ys) = xs # split_on c ys"
  by (induction xs) auto

lemma declaration_text_no_semicolon:
  "authored d \<Longrightarrow> CHR '';'' \<notin> set (declaration_text d)"
  by (simp add: authored_def declaration_text_def)

lemma declaration_text_nonempty: "declaration_text d \<noteq> []"
  by (simp add: declaration_text_def)

lemma split_style_text:
  "\<forall>x \<in> set (d # ds). authored x \<Longrightarrow>
     split_on (CHR '';'') (style_text (d # ds)) = map declaration_text (d # ds)"
proof (induction ds arbitrary: d)
  case Nil
  then show ?case by (simp add: split_on_notin declaration_text_no_semicolon)
next
  case (Cons d' ds)
  have a: "CHR '';'' \<notin> set (declaration_text d)"
    using Cons.prems by (simp add: declaration_text_no_semicolon)
  have r: "split_on (CHR '';'') (style_text (d' # ds)) = map declaration_text (d' # ds)"
    using Cons.prems by (intro Cons.IH) simp
  show ?case using split_on_append [OF a, of "style_text (d' # ds)"] r by simp
qed

lemma strip_important_flagged: "strip_important (v @ ''!important'') = (v, True)"
  by (simp add: strip_important_def Let_def)

lemma strip_important_plain: "\<not> ends_important v \<Longrightarrow> strip_important v = (v, False)"
  by (auto simp: strip_important_def ends_important_def Let_def)

lemma parse_declaration_text:
  assumes "authored d"
  shows "parse_declaration (declaration_text d) = d"
proof -
  obtain p v i where d: "d = (p, v, i)" by (cases d)
  have c: "CHR '':'' \<notin> set p" using assms d by (simp add: authored_def)
  have tw: "takeWhile (\<lambda>x. x \<noteq> CHR '':'') (p @ CHR '':'' # r) = p" for r
    using c by (induction p) auto
  show ?thesis
  proof (cases i)
    case True
    have "parse_declaration (p @ '':'' @ v @ ''!important'') = (p, v, True)"
      using tw [of "v @ ''!important''"] strip_important_flagged [of v]
      by (simp add: parse_declaration_def Let_def)
    then show ?thesis using d True by (simp add: declaration_text_def)
  next
    case False
    then have ne: "\<not> ends_important v" using assms d by (simp add: authored_def)
    have "parse_declaration (p @ '':'' @ v) = (p, v, False)"
      using tw [of v] strip_important_plain [OF ne]
      by (simp add: parse_declaration_def Let_def)
    then show ?thesis using d False by (simp add: declaration_text_def)
  qed
qed

lemma parse_style_text:
  assumes "\<forall>d \<in> set decls. authored d"
  shows "parse_style_attribute (style_text decls) = decls"
proof (cases decls)
  case Nil
  then show ?thesis by (simp add: parse_style_attribute_def)
next
  case (Cons d ds)
  have s: "split_on (CHR '';'') (style_text decls) = map declaration_text decls"
    using assms Cons split_style_text [of d ds] by simp
  have f: "filter (\<lambda>t. t \<noteq> []) (map declaration_text decls) = map declaration_text decls"
    by (simp add: declaration_text_nonempty filter_id_conv)
  have m: "map parse_declaration (map declaration_text decls) = decls"
    using assms by (induction decls) (simp_all add: parse_declaration_text)
  show ?thesis using s f m by (simp add: parse_style_attribute_def)
qed

text \<open>
  C4. Reading the attribute text written for any list of authored declarations
  gives that list back: the triples (property, value, importantFlag) come in the
  order they were written, and a declaration written twice is read twice. The text
  \<^verbatim>\<open>background:blue!important;color:red;opacity:0.5!important\<close> reads as
  (background, blue, true), (color, red, false), (opacity, 0.5, true), and that list
  is the style declarations of the node the generated program of the fixture
  \<^verbatim>\<open>base/style-important\<close> renders.
\<close>

theorem style_declarations_in_order:
  "((\<forall>d \<in> set decls. authored d) \<longrightarrow> parse_style_attribute (style_text decls) = decls)
   \<and> parse_style_attribute ''background:blue!important;color:red;opacity:0.5!important''
       = [(''background'', ''blue'', True), (''color'', ''red'', False), (''opacity'', ''0.5'', True)]
   \<and> map style_decls_of tmpl_style_important
       = [parse_style_attribute ''background:blue!important;color:red;opacity:0.5!important'']"
proof -
  have f: "map style_decls_of tmpl_style_important
     = [[(''background'', ''blue'', True), (''color'', ''red'', False), (''opacity'', ''0.5'', True)]]"
    by (simp add: tmpl_style_important_def hoisted1_style_important_def api_set_owner_def
        api_element_def no_data_def)
  show ?thesis using parse_style_text [of decls] parse_style_attribute_scenario f by simp
qed

theorem style_declarations_in_order_witness:
  "style_text [(''color'', ''red'', False), (''top'', ''0'', True), (''color'', ''red'', False)]
     = ''color:red;top:0!important;color:red''
   \<and> parse_style_attribute ''color:red;top:0!important;color:red''
     = [(''color'', ''red'', False), (''top'', ''0'', True), (''color'', ''red'', False)]"
proof -
  have t: "style_text [(''color'', ''red'', False), (''top'', ''0'', True), (''color'', ''red'', False)]
     = ''color:red;top:0!important;color:red''"
    by (simp add: declaration_text_def)
  have a: "\<forall>d \<in> set [(''color'', ''red'', False), (''top'', ''0'', True), (''color'', ''red'', False)].
      authored d"
    by (simp add: authored_def ends_important_def)
  show ?thesis
    using style_declarations_in_order
      [of "[(''color'', ''red'', False), (''top'', ''0'', True), (''color'', ''red'', False)]"] t a
    by simp
qed

end
